theory Spec2Isabelle
  imports Complex_Main "HOL-Library.Char_ord" "HOL-Library.List_Lexorder"
    "HOL-Library.Product_Lexorder" "HOL-Library.Multiset"
begin

section \<open>Data model of the graph layout module\<close>

text \<open>
  The module \<^verbatim>\<open>app_mockup/backend/graph_layout.py\<close> lays out a directed graph in layers.
  Node ids are Python strings, compared by code point: \<^typ>\<open>string\<close> with the
  lexicographic order on character lists.  Python integers are \<^typ>\<open>int\<close>.  The
  barycenter values are Python floats obtained as quotients of small integers; they are
  modelled by exact rationals (\<^typ>\<open>rat\<close>), which order such quotients the way the
  correctly rounded doubles do for every graph a machine can hold.

  A node dict and an edge dict are records; the layout reads only \<^verbatim>\<open>node['id']\<close>,
  \<^verbatim>\<open>edge['source']\<close> and \<^verbatim>\<open>edge['target']\<close>, the remaining payload is the record
  extension.  Dictionaries whose iteration order the code relies on are association lists in
  insertion order, the others are maps.  A failing subscript is the error value
  \<open>KeyError\<close>.
\<close>

datatype py_error = KeyError

record node =
  ident :: string

record edge =
  source :: string
  target :: string

definition HASH_FALLBACK_RANGE :: int where
  "HASH_FALLBACK_RANGE = 10000"

text \<open>\<^verbatim>\<open>d[k].append(v)\<close> on a \<^verbatim>\<open>defaultdict(list)\<close> that keeps insertion order.\<close>

fun dict_append :: "'k \<Rightarrow> 'v \<Rightarrow> ('k \<times> 'v list) list \<Rightarrow> ('k \<times> 'v list) list" where
  "dict_append k v [] = [(k, [v])]"
| "dict_append k v ((k', vs) # d) =
     (if k' = k then (k', vs @ [v]) # d else (k', vs) # dict_append k v d)"

text \<open>\<^verbatim>\<open>d[k]\<close> on a \<^verbatim>\<open>defaultdict(list)\<close>, and \<^verbatim>\<open>d.get(k, [])\<close>.\<close>

definition dict_get :: "('k \<times> 'v list) list \<Rightarrow> 'k \<Rightarrow> 'v list" where
  "dict_get d k = (case map_of d k of None \<Rightarrow> [] | Some vs \<Rightarrow> vs)"

text \<open>\<^verbatim>\<open>for i, n in enumerate(xs): m[n] = i\<close>\<close>

definition set_order :: "(string \<rightharpoonup> int) \<Rightarrow> nat \<times> string \<Rightarrow> (string \<rightharpoonup> int)" where
  "set_order m p = m(snd p \<mapsto> int (fst p))"

definition assign_enum :: "(string \<rightharpoonup> int) \<Rightarrow> string list \<Rightarrow> (string \<rightharpoonup> int)" where
  "assign_enum m xs = foldl set_order m (enumerate 0 xs)"

text \<open>\<^verbatim>\<open>statistics.mean\<close> of a non-empty list of integers.\<close>

definition mean :: "int list \<Rightarrow> rat" where
  "mean xs = of_int (sum_list xs) / of_nat (length xs)"

section \<open>Layer assignment\<close>

text \<open>
  The first loop of \<^verbatim>\<open>assign_layers\<close> keeps the edges with both endpoints among the node
  ids and appends to \<^verbatim>\<open>children[src]\<close>, \<^verbatim>\<open>parents[tgt]\<close> and counts
  \<^verbatim>\<open>in_degree[tgt]\<close>.  The three dictionaries are read off the list of kept edges.
\<close>

definition included_edges :: "string set \<Rightarrow> 'b edge_scheme list \<Rightarrow> (string \<times> string) list" where
  "included_edges node_ids edges =
     [(source e, target e). e \<leftarrow> edges, source e \<in> node_ids \<and> target e \<in> node_ids]"

definition children_of :: "(string \<times> string) list \<Rightarrow> string \<Rightarrow> string list" where
  "children_of es n = [snd e. e \<leftarrow> es, fst e = n]"

definition parents_of :: "(string \<times> string) list \<Rightarrow> string \<Rightarrow> string list" where
  "parents_of es n = [fst e. e \<leftarrow> es, snd e = n]"

definition in_degree_of :: "(string \<times> string) list \<Rightarrow> string \<Rightarrow> int" where
  "in_degree_of es n = int (length (parents_of es n))"

record lstate =
  layers :: "string \<rightharpoonup> int"
  in_degree :: "string \<Rightarrow> int"
  queue :: "string list"

text \<open>The seeding loop: every node of in-degree 0 gets layer 0 and enters the queue.\<close>

definition seed :: "lstate \<Rightarrow> string \<Rightarrow> lstate" where
  "seed st n =
     (if in_degree st n = 0
      then st\<lparr>layers := (layers st)(n \<mapsto> 0), queue := queue st @ [n]\<rparr>
      else st)"

definition initial_state :: "string list \<Rightarrow> (string \<times> string) list \<Rightarrow> lstate" where
  "initial_state ids es =
     foldl seed \<lparr>layers = Map.empty, in_degree = in_degree_of es, queue = []\<rparr> ids"

text \<open>The body of \<^verbatim>\<open>for child_id in children[node_id]\<close>.\<close>

definition visit_child :: "int \<Rightarrow> lstate \<Rightarrow> string \<Rightarrow> lstate" where
  "visit_child current_layer st child_id =
     (let child_layer = max (case layers st child_id of None \<Rightarrow> 0 | Some l \<Rightarrow> l)
                            (current_layer + 1);
          d = in_degree st child_id - 1
      in st\<lparr>layers := (layers st)(child_id \<mapsto> child_layer),
            in_degree := (in_degree st)(child_id := d),
            queue := (if d = 0 then queue st @ [child_id] else queue st)\<rparr>)"

text \<open>What one iteration of \<^verbatim>\<open>while queue\<close> does once \<^verbatim>\<open>node_id\<close> is popped.\<close>

definition process_node :: "(string \<times> string) list \<Rightarrow> lstate \<Rightarrow> string \<Rightarrow> int \<Rightarrow> lstate" where
  "process_node es st node_id current_layer =
     foldl (visit_child current_layer) st (children_of es node_id)"

definition pending :: "(string \<times> string) list \<Rightarrow> lstate \<Rightarrow> nat" where
  "pending es st = length (queue st) + card {t \<in> snd ` set es. 0 < in_degree st t}"

lemma pending_visit_child:
  assumes "c \<in> snd ` set es"
  shows "pending es (visit_child cur st c) = pending es st"
proof -
  let ?T = "snd ` set es"
  let ?P = "{t \<in> ?T. 0 < in_degree st t}"
  have fin: "finite ?P" by simp
  show ?thesis
  proof (cases "in_degree st c = 1")
    case True
    then have "{t \<in> ?T. 0 < in_degree (visit_child cur st c) t} = ?P - {c}"
      by (auto simp: visit_child_def Let_def)
    moreover have "c \<in> ?P" using True assms by simp
    ultimately have "card {t \<in> ?T. 0 < in_degree (visit_child cur st c) t} = card ?P - 1"
      using fin by simp
    moreover have "card ?P > 0" using \<open>c \<in> ?P\<close> fin by (auto simp: card_gt_0_iff)
    moreover have "length (queue (visit_child cur st c)) = length (queue st) + 1"
      using True by (simp add: visit_child_def Let_def)
    ultimately show ?thesis by (simp add: pending_def)
  next
    case False
    then have "{t \<in> ?T. 0 < in_degree (visit_child cur st c) t} = ?P"
      by (auto simp: visit_child_def Let_def)
    moreover have "queue (visit_child cur st c) = queue st"
      using False by (simp add: visit_child_def Let_def)
    ultimately show ?thesis by (simp add: pending_def)
  qed
qed

lemma pending_foldl_visit:
  "set cs \<subseteq> snd ` set es \<Longrightarrow> pending es (foldl (visit_child cur) st cs) = pending es st"
  by (induction cs arbitrary: st) (simp_all add: pending_visit_child)

lemma children_of_subset: "set (children_of es n) \<subseteq> snd ` set es"
  by (auto simp: children_of_def)

lemma pending_process_node: "pending es (process_node es st n cur) = pending es st"
  by (simp add: process_node_def pending_foldl_visit children_of_subset)

text \<open>
  The loop \<^verbatim>\<open>while queue\<close>.  \<^verbatim>\<open>layers[node_id]\<close> raises \<open>KeyError\<close> on a missing key.
  The loop ends: the queue length plus the number of edge targets whose in-degree is still
  positive goes down with every popped node.
\<close>

function process_queue :: "(string \<times> string) list \<Rightarrow> lstate \<Rightarrow> py_error + lstate" where
  "process_queue es st =
     (case queue st of
        [] \<Rightarrow> Inr st
      | node_id # rest \<Rightarrow>
          (case layers st node_id of
             None \<Rightarrow> Inl KeyError
           | Some current_layer \<Rightarrow>
               process_queue es (process_node es (st\<lparr>queue := rest\<rparr>) node_id current_layer)))"
  by pat_completeness auto
termination
proof (relation "measure (\<lambda>(es, st). pending es st)")
  show "wf (measure (\<lambda>(es, st). pending es st))" by simp
next
  fix es :: "(string \<times> string) list" and st :: lstate and node_id rest current_layer
  assume q: "queue st = node_id # rest"
  have "pending es (st\<lparr>queue := rest\<rparr>) < pending es st"
    using q by (simp add: pending_def)
  then show "((es, process_node es (st\<lparr>queue := rest\<rparr>) node_id current_layer), (es, st))
             \<in> measure (\<lambda>(es, st). pending es st)"
    by (simp add: pending_process_node)
qed

text \<open>The last loop: a node that received no layer gets layer 0.\<close>

definition default_layer :: "(string \<rightharpoonup> int) \<Rightarrow> string \<Rightarrow> (string \<rightharpoonup> int)" where
  "default_layer L n = (if L n = None then L(n \<mapsto> 0) else L)"

definition run_queue :: "string list \<Rightarrow> (string \<times> string) list \<Rightarrow> py_error + lstate" where
  "run_queue ids es = process_queue es (initial_state ids es)"

definition assign_layers ::
  "'a node_scheme list \<Rightarrow> 'b edge_scheme list \<Rightarrow> py_error + (string \<rightharpoonup> int)" where
  "assign_layers nodes edges =
     (let ids = map ident nodes;
          es = included_edges (set ids) edges
      in case run_queue ids es of
           Inl e \<Rightarrow> Inl e
         | Inr st \<Rightarrow> Inr (foldl default_layer (layers st) ids))"

section \<open>Barycenter ordering\<close>

text \<open>
  \<^verbatim>\<open>hash(node_id)\<close> is the interpreter's string hash, which CPython seeds per process; it
  is the parameter \<open>h\<close> of the model.  Python's \<^verbatim>\<open>%\<close> with a positive modulus is \<open>mod\<close>.
\<close>

definition hash_fallback :: "(string \<Rightarrow> int) \<Rightarrow> string \<Rightarrow> rat" where
  "hash_fallback h node_id =
     of_int (h node_id mod HASH_FALLBACK_RANGE) / of_int HASH_FALLBACK_RANGE"

definition compute_barycenter ::
  "(string \<Rightarrow> int) \<Rightarrow> string \<Rightarrow> string list \<Rightarrow> string list \<Rightarrow> (string \<rightharpoonup> int) \<Rightarrow> rat" where
  "compute_barycenter h node_id layer_nodes neighbors node_orders =
     (if neighbors = [] then hash_fallback h node_id
      else let positions = List.map_filter node_orders neighbors
           in if positions = [] then hash_fallback h node_id else mean positions)"

text \<open>
  The body shared by both sweeps: the barycenter of every node of the layer, the sort by
  \<^verbatim>\<open>(barycenter, node_id)\<close> and the new order positions.
\<close>

definition reorder_layer ::
  "(string \<Rightarrow> int) \<Rightarrow> (string \<Rightarrow> string list) \<Rightarrow> string list \<Rightarrow> string list \<Rightarrow>
   (string \<rightharpoonup> int) \<Rightarrow> (string \<rightharpoonup> int)" where
  "reorder_layer h neighbors_of adjacent_nodes layer_nodes node_orders =
     (let node_barycenters =
            map (\<lambda>n. (compute_barycenter h n adjacent_nodes (neighbors_of n) node_orders, n))
                layer_nodes
      in assign_enum node_orders (map snd (sort_key (\<lambda>x. (fst x, snd x)) node_barycenters)))"

type_synonym layer_dict = "(int \<times> string list) list"

definition top_down_step ::
  "(string \<Rightarrow> int) \<Rightarrow> layer_dict \<Rightarrow> (string \<Rightarrow> string list) \<Rightarrow> int list \<Rightarrow>
   (string \<rightharpoonup> int) \<Rightarrow> nat \<Rightarrow> (string \<rightharpoonup> int)" where
  "top_down_step h nodes_by_layer parents layer_numbers node_orders layer_idx =
     (let layer = layer_numbers ! layer_idx;
          layer_nodes = dict_get nodes_by_layer layer
      in if layer_idx = 0 \<or> length layer_nodes \<le> 1 then node_orders
         else reorder_layer h parents (dict_get nodes_by_layer (layer - 1)) layer_nodes
                node_orders)"

definition bottom_up_step ::
  "(string \<Rightarrow> int) \<Rightarrow> layer_dict \<Rightarrow> (string \<Rightarrow> string list) \<Rightarrow> int list \<Rightarrow>
   (string \<rightharpoonup> int) \<Rightarrow> nat \<Rightarrow> (string \<rightharpoonup> int)" where
  "bottom_up_step h nodes_by_layer children layer_numbers node_orders layer_idx =
     (let layer = layer_numbers ! layer_idx;
          layer_nodes = dict_get nodes_by_layer layer
      in if layer_idx = length layer_numbers - 1 \<or> length layer_nodes \<le> 1 then node_orders
         else reorder_layer h children (dict_get nodes_by_layer (layer + 1)) layer_nodes
                node_orders)"

definition top_down ::
  "(string \<Rightarrow> int) \<Rightarrow> layer_dict \<Rightarrow> (string \<Rightarrow> string list) \<Rightarrow> int list \<Rightarrow>
   (string \<rightharpoonup> int) \<Rightarrow> (string \<rightharpoonup> int)" where
  "top_down h nodes_by_layer parents layer_numbers node_orders =
     foldl (top_down_step h nodes_by_layer parents layer_numbers) node_orders
       [0..<length layer_numbers]"

definition bottom_up ::
  "(string \<Rightarrow> int) \<Rightarrow> layer_dict \<Rightarrow> (string \<Rightarrow> string list) \<Rightarrow> int list \<Rightarrow>
   (string \<rightharpoonup> int) \<Rightarrow> (string \<rightharpoonup> int)" where
  "bottom_up h nodes_by_layer children layer_numbers node_orders =
     foldl (bottom_up_step h nodes_by_layer children layer_numbers) node_orders
       (rev [0..<length layer_numbers])"

text \<open>One iteration of \<^verbatim>\<open>for iteration in range(iterations)\<close>.\<close>

definition sweep ::
  "(string \<Rightarrow> int) \<Rightarrow> layer_dict \<Rightarrow> (string \<Rightarrow> string list) \<Rightarrow> (string \<Rightarrow> string list) \<Rightarrow>
   int list \<Rightarrow> (string \<rightharpoonup> int) \<Rightarrow> (string \<rightharpoonup> int)" where
  "sweep h nodes_by_layer children parents layer_numbers node_orders =
     bottom_up h nodes_by_layer children layer_numbers
       (top_down h nodes_by_layer parents layer_numbers node_orders)"

text \<open>\<^verbatim>\<open>for iteration in range(n)\<close> around a loop body that transforms the state.\<close>

fun for_range :: "nat \<Rightarrow> ('s \<Rightarrow> 's) \<Rightarrow> 's \<Rightarrow> 's" where
  "for_range 0 body st = st"
| "for_range (Suc n) body st = for_range n body (body st)"

definition init_orders :: "layer_dict \<Rightarrow> (string \<rightharpoonup> int)" where
  "init_orders nodes_by_layer =
     foldl (\<lambda>m (layer, node_list). assign_enum m (sort node_list)) Map.empty nodes_by_layer"

section \<open>Bottom layer grouping\<close>

text \<open>
  The group key is the tuple of the sorted parent ids, or \<^verbatim>\<open>('orphan',)\<close>.  The group
  position is a float that may be \<^verbatim>\<open>float('inf')\<close>: a pair whose first component says
  whether it is infinite, under the lexicographic order.
\<close>

definition orphan_key :: "string list" where
  "orphan_key = [''orphan'']"

definition group_key :: "(string \<Rightarrow> string list) \<Rightarrow> string \<Rightarrow> string list" where
  "group_key parents node_id =
     (let parent_ids = parents node_id
      in if parent_ids = [] then orphan_key else sort parent_ids)"

definition group_nodes :: "(string \<Rightarrow> string list) \<Rightarrow> string list \<Rightarrow> (string list \<times> string list) list" where
  "group_nodes parents bottom_layer_nodes =
     foldl (\<lambda>groups node_id. dict_append (group_key parents node_id) node_id groups) []
       bottom_layer_nodes"

definition group_position :: "(string \<rightharpoonup> int) \<Rightarrow> string list \<Rightarrow> bool \<times> rat" where
  "group_position parent_orders key =
     (if key = orphan_key then (True, 0)
      else let parent_positions = List.map_filter parent_orders key
           in (False, if parent_positions \<noteq> [] then mean parent_positions else 0))"

definition sorted_groups ::
  "(string \<Rightarrow> string list) \<Rightarrow> (string \<rightharpoonup> int) \<Rightarrow> string list \<Rightarrow>
   ((bool \<times> rat) \<times> string list \<times> string list) list" where
  "sorted_groups parents parent_orders bottom_layer_nodes =
     sort_key (\<lambda>x. (fst x, fst (snd x)))
       (map (\<lambda>(key, members). (group_position parent_orders key, key, members))
            (group_nodes parents bottom_layer_nodes))"

definition order_bottom_layer_by_support ::
  "string list \<Rightarrow> (string \<Rightarrow> string list) \<Rightarrow> (string \<rightharpoonup> int) \<Rightarrow> (string \<rightharpoonup> int)" where
  "order_bottom_layer_by_support bottom_layer_nodes parents parent_orders =
     assign_enum Map.empty
       (concat (map (\<lambda>x. sort (snd (snd x)))
                    (sorted_groups parents parent_orders bottom_layer_nodes)))"

definition barycenter_ordering ::
  "(string \<Rightarrow> int) \<Rightarrow> layer_dict \<Rightarrow> (string \<Rightarrow> string list) \<Rightarrow> (string \<Rightarrow> string list) \<Rightarrow>
   int \<Rightarrow> (string \<rightharpoonup> int)" where
  "barycenter_ordering h nodes_by_layer children parents iterations =
     (let layer_numbers = sort (map fst nodes_by_layer);
          node_orders = for_range (nat iterations)
                          (sweep h nodes_by_layer children parents layer_numbers)
                          (init_orders nodes_by_layer)
      in if layer_numbers \<noteq> [] then
           (let bottom_layer_nodes = dict_get nodes_by_layer (last layer_numbers)
            in if length bottom_layer_nodes > 1 \<and> length layer_numbers > 1
               then node_orders ++
                      order_bottom_layer_by_support bottom_layer_nodes parents node_orders
               else node_orders)
         else node_orders)"

section \<open>Crossing count\<close>

definition order_get :: "(string \<rightharpoonup> int) \<Rightarrow> string \<Rightarrow> int" where
  "order_get node_orders n = (case node_orders n of None \<Rightarrow> 0 | Some i \<Rightarrow> i)"

definition edges_cross :: "(string \<rightharpoonup> int) \<Rightarrow> string \<times> string \<Rightarrow> string \<times> string \<Rightarrow> bool" where
  "edges_cross node_orders e1 e2 =
     (let u1_order = order_get node_orders (fst e1);
          u2_order = order_get node_orders (fst e2);
          v1_order = order_get node_orders (snd e1);
          v2_order = order_get node_orders (snd e2)
      in (u1_order < u2_order \<and> v1_order > v2_order) \<or>
         (u1_order > u2_order \<and> v1_order < v2_order))"

text \<open>The two nested loops over \<^verbatim>\<open>i < j\<close> of one bucket.\<close>

fun count_bucket :: "(string \<rightharpoonup> int) \<Rightarrow> (string \<times> string) list \<Rightarrow> int" where
  "count_bucket node_orders [] = 0"
| "count_bucket node_orders (e # edge_list) =
     int (length (filter (edges_cross node_orders e) edge_list)) +
     count_bucket node_orders edge_list"

definition bucket_edge ::
  "(string \<rightharpoonup> int) \<Rightarrow> ((int \<times> int) \<times> (string \<times> string) list) list \<Rightarrow> 'b edge_scheme \<Rightarrow>
   ((int \<times> int) \<times> (string \<times> string) list) list" where
  "bucket_edge node_layers buckets e =
     (case (node_layers (source e), node_layers (target e)) of
        (Some src_layer, Some tgt_layer) \<Rightarrow>
          if src_layer < tgt_layer
          then dict_append (src_layer, tgt_layer) (source e, target e) buckets
          else buckets
      | _ \<Rightarrow> buckets)"

definition count_edge_crossings ::
  "layer_dict \<Rightarrow> 'b edge_scheme list \<Rightarrow> (string \<rightharpoonup> int) \<Rightarrow> (string \<rightharpoonup> int) \<Rightarrow> int" where
  "count_edge_crossings nodes_by_layer edges node_orders node_layers =
     sum_list (map (\<lambda>(layer_pair, edge_list). count_bucket node_orders edge_list)
                   (foldl (bucket_edge node_layers) [] edges))"

section \<open>The pipeline\<close>

text \<open>\<^verbatim>\<open>nodes_by_layer[node_layers[node['id']]].append(node['id'])\<close> for every node.\<close>

fun group_by_layer :: "(string \<rightharpoonup> int) \<Rightarrow> string list \<Rightarrow> layer_dict \<Rightarrow> py_error + layer_dict" where
  "group_by_layer node_layers [] nodes_by_layer = Inr nodes_by_layer"
| "group_by_layer node_layers (n # ns) nodes_by_layer =
     (case node_layers n of
        None \<Rightarrow> Inl KeyError
      | Some layer \<Rightarrow> group_by_layer node_layers ns (dict_append layer n nodes_by_layer))"

text \<open>
  The position loop.  \<^verbatim>\<open>sorted(node_list, key=lambda n: node_orders[n])\<close> raises
  \<open>KeyError\<close> for a node without an order.  \<^verbatim>\<open>-total_width // 2\<close> negates first and then
  divides with rounding towards minus infinity.
\<close>

definition start_x_of :: "int \<Rightarrow> int \<Rightarrow> int" where
  "start_x_of layer_width node_spacing =
     (let total_width = (layer_width - 1) * node_spacing
      in if layer_width > 1 then (- total_width) div 2 else 0)"

definition set_position ::
  "int \<Rightarrow> int \<Rightarrow> int \<Rightarrow> (string \<rightharpoonup> int \<times> int) \<Rightarrow> nat \<times> string \<Rightarrow> (string \<rightharpoonup> int \<times> int)" where
  "set_position start_x node_spacing y positions p =
     positions(snd p \<mapsto> (start_x + int (fst p) * node_spacing, y))"

definition place_nodes ::
  "int \<Rightarrow> int \<Rightarrow> int \<Rightarrow> (string \<rightharpoonup> int \<times> int) \<Rightarrow> string list \<Rightarrow> (string \<rightharpoonup> int \<times> int)" where
  "place_nodes start_x node_spacing y positions sorted_nodes =
     foldl (set_position start_x node_spacing y) positions (enumerate 0 sorted_nodes)"

fun place_layers ::
  "int \<Rightarrow> int \<Rightarrow> (string \<rightharpoonup> int) \<Rightarrow> layer_dict \<Rightarrow> (string \<rightharpoonup> int \<times> int) \<times> int \<Rightarrow>
   py_error + ((string \<rightharpoonup> int \<times> int) \<times> int)" where
  "place_layers node_spacing layer_separation node_orders [] acc = Inr acc"
| "place_layers node_spacing layer_separation node_orders ((layer, node_list) # rest)
     (positions, max_layer_width) =
     (let layer_width = int (length node_list)
      in if \<exists>n \<in> set node_list. node_orders n = None then Inl KeyError
         else let sorted_nodes = sort_key (\<lambda>n. the (node_orders n)) node_list;
                  start_x = start_x_of layer_width node_spacing
              in place_layers node_spacing layer_separation node_orders rest
                   (place_nodes start_x node_spacing (layer * layer_separation) positions
                      sorted_nodes,
                    max max_layer_width layer_width))"

type_synonym layout = "(string \<rightharpoonup> int \<times> int) \<times> (string \<rightharpoonup> int) \<times> (string \<rightharpoonup> int)"

text \<open>
  Steps 1 and 2 of \<^verbatim>\<open>compute_layout_positions\<close>: the layer map, the nodes grouped by
  layer and the order map that the position loop and the crossing count then read.
\<close>

definition order_stage ::
  "(string \<Rightarrow> int) \<Rightarrow> 'a node_scheme list \<Rightarrow> 'b edge_scheme list \<Rightarrow> int \<Rightarrow>
   py_error + ((string \<rightharpoonup> int) \<times> layer_dict \<times> (string \<rightharpoonup> int))" where
  "order_stage h nodes edges iterations =
     (case assign_layers nodes edges of
        Inl e \<Rightarrow> Inl e
      | Inr node_layers \<Rightarrow>
          (case group_by_layer node_layers (map ident nodes) [] of
             Inl e \<Rightarrow> Inl e
           | Inr nodes_by_layer \<Rightarrow>
               (let es = included_edges (set (map ident nodes)) edges
                in Inr (node_layers, nodes_by_layer,
                        barycenter_ordering h nodes_by_layer (children_of es) (parents_of es)
                          iterations))))"

definition compute_layout_positions ::
  "(string \<Rightarrow> int) \<Rightarrow> 'a node_scheme list \<Rightarrow> 'b edge_scheme list \<Rightarrow> int \<Rightarrow> int \<Rightarrow> int \<Rightarrow>
   py_error + layout" where
  "compute_layout_positions h nodes edges node_spacing layer_separation iterations =
     (if nodes = []
      then Inr (Map.empty,
                [''crossings'' \<mapsto> 0, ''layers'' \<mapsto> 0, ''max_layer_width'' \<mapsto> 0],
                Map.empty)
      else
        case order_stage h nodes edges iterations of
          Inl e \<Rightarrow> Inl e
        | Inr (node_layers, nodes_by_layer, node_orders) \<Rightarrow>
           (case place_layers node_spacing layer_separation node_orders nodes_by_layer
                   (Map.empty, 0) of
              Inl e \<Rightarrow> Inl e
            | Inr (positions, max_layer_width) \<Rightarrow>
                Inr (positions,
                     [''crossings'' \<mapsto>
                        count_edge_crossings nodes_by_layer edges node_orders node_layers,
                      ''layers'' \<mapsto> int (length nodes_by_layer),
                      ''max_layer_width'' \<mapsto> max_layer_width,
                      ''total_nodes'' \<mapsto> int (length nodes),
                      ''total_edges'' \<mapsto> int (length edges)],
                     node_layers)))"

section \<open>Applying a layout to the node records\<close>

text \<open>
  \<^verbatim>\<open>apply_layout_to_nodes\<close> copies dict objects, so the claim about it depends on which
  object is written.  Node dicts live in a store of objects, a reference is an index into the
  store, and \<^verbatim>\<open>node.copy()\<close> allocates a new object with the same items.  The values of
  a node dict are strings or integers here.
\<close>

datatype pyval = PStr string | PInt int

type_synonym pydict = "string \<rightharpoonup> pyval"
type_synonym heap = "pydict list"

definition dict_copy :: "heap \<Rightarrow> nat \<Rightarrow> nat \<times> heap" where
  "dict_copy hp r = (length hp, hp @ [hp ! r])"

text \<open>\<^verbatim>\<open>v in positions\<close> and \<^verbatim>\<open>positions[v]\<close> for a dict keyed by strings.\<close>

definition position_of :: "(string \<rightharpoonup> int \<times> int) \<Rightarrow> pyval \<Rightarrow> (int \<times> int) option" where
  "position_of positions v = (case v of PStr s \<Rightarrow> positions s | PInt i \<Rightarrow> None)"

definition layout_node ::
  "(string \<rightharpoonup> int \<times> int) \<Rightarrow> nat list \<times> heap \<Rightarrow> nat \<Rightarrow> py_error + (nat list \<times> heap)" where
  "layout_node positions acc node =
     (case dict_copy (snd acc) node of
        (node_copy, hp) \<Rightarrow>
          (case (hp ! node) ''id'' of
             None \<Rightarrow> Inl KeyError
           | Some v \<Rightarrow>
               (case position_of positions v of
                  None \<Rightarrow> Inr (fst acc @ [node_copy], hp)
                | Some (x, y) \<Rightarrow>
                    Inr (fst acc @ [node_copy],
                         hp[node_copy := (hp ! node_copy)(''x'' \<mapsto> PInt x, ''y'' \<mapsto> PInt y)]))))"

fun apply_loop ::
  "(string \<rightharpoonup> int \<times> int) \<Rightarrow> nat list \<Rightarrow> nat list \<times> heap \<Rightarrow> py_error + (nat list \<times> heap)" where
  "apply_loop positions [] acc = Inr acc"
| "apply_loop positions (node # nodes) acc =
     (case layout_node positions acc node of
        Inl e \<Rightarrow> Inl e
      | Inr acc' \<Rightarrow> apply_loop positions nodes acc')"

definition apply_layout_to_nodes ::
  "heap \<Rightarrow> nat list \<Rightarrow> (string \<rightharpoonup> int \<times> int) \<Rightarrow> py_error + (nat list \<times> heap)" where
  "apply_layout_to_nodes hp nodes positions = apply_loop positions nodes ([], hp)"

text \<open>What the copy of a node dict holds once its position has been added.\<close>

definition with_position :: "(string \<rightharpoonup> int \<times> int) \<Rightarrow> pydict \<Rightarrow> pydict" where
  "with_position positions d =
     (case d ''id'' of
        None \<Rightarrow> d
      | Some v \<Rightarrow>
          (case position_of positions v of
             None \<Rightarrow> d
           | Some (x, y) \<Rightarrow> d(''x'' \<mapsto> PInt x, ''y'' \<mapsto> PInt y)))"

text \<open>The input is well formed: every node is an object of the store and has an id.\<close>

definition nodes_ok :: "heap \<Rightarrow> nat list \<Rightarrow> bool" where
  "nodes_ok hp nodes = (\<forall>r \<in> set nodes. r < length hp \<and> (hp ! r) ''id'' \<noteq> None)"

section \<open>The empty graph\<close>

text \<open>
  Claim C3.  With an empty node list \<^verbatim>\<open>compute_layout_positions\<close> returns at once, for
  every edge list: empty positions, an empty layer map, and a metrics dict with the three
  keys \<^verbatim>\<open>crossings\<close>, \<^verbatim>\<open>layers\<close> and \<^verbatim>\<open>max_layer_width\<close>, all 0.  The keys
  \<^verbatim>\<open>total_nodes\<close> and \<^verbatim>\<open>total_edges\<close>, which the path for a non-empty graph
  returns, are absent.
\<close>

theorem empty_graph_layout:
  "\<exists>metrics. compute_layout_positions h [] edges node_spacing layer_separation iterations
                = Inr (Map.empty, metrics, Map.empty) \<and>
             dom metrics = {''crossings'', ''layers'', ''max_layer_width''} \<and>
             metrics ''crossings'' = Some 0 \<and> metrics ''layers'' = Some 0 \<and>
             metrics ''max_layer_width'' = Some 0 \<and>
             metrics ''total_nodes'' = None \<and> metrics ''total_edges'' = None"
  by (simp add: compute_layout_positions_def) (auto split: if_splits)

section \<open>Properties of \<^verbatim>\<open>apply_layout_to_nodes\<close>\<close>

lemma layout_node_ok:
  assumes "node < length hp" "(hp ! node) ''id'' \<noteq> None"
  shows "\<exists>hp'. layout_node positions (res, hp) node = Inr (res @ [length hp], hp') \<and>
           length hp' = Suc (length hp) \<and> take (length hp) hp' = hp \<and>
           hp' ! length hp = with_position positions (hp ! node)"
  using assms
  by (auto simp: layout_node_def dict_copy_def with_position_def nth_append split: option.splits prod.splits)

lemma apply_loop_ok:
  assumes "nodes_ok hp0 nodes" "length hp0 \<le> length hp" "take (length hp0) hp = hp0"
  shows "\<exists>hp'. apply_loop positions nodes (res, hp) =
               Inr (res @ [length hp ..< length hp + length nodes], hp') \<and>
           length hp' = length hp + length nodes \<and> take (length hp) hp' = hp \<and>
           (\<forall>i < length nodes. hp' ! (length hp + i) = with_position positions (hp0 ! (nodes ! i)))"
  using assms
proof (induction nodes arbitrary: res hp)
  case Nil
  then show ?case by simp
next
  case (Cons n ns)
  have n: "n < length hp0" "(hp0 ! n) ''id'' \<noteq> None" and ns: "nodes_ok hp0 ns"
    using Cons.prems(1) by (auto simp: nodes_ok_def)
  have hn: "hp ! n = hp0 ! n"
    using n(1) Cons.prems(2,3) by (metis nth_take)
  then have "n < length hp" "(hp ! n) ''id'' \<noteq> None" using n Cons.prems(2) by auto
  from layout_node_ok[OF this, of positions res] obtain hp1 where
    s: "layout_node positions (res, hp) n = Inr (res @ [length hp], hp1)"
    and l1: "length hp1 = Suc (length hp)" and t1: "take (length hp) hp1 = hp"
    and v1: "hp1 ! length hp = with_position positions (hp ! n)" by blast
  have t0: "take (length hp0) hp1 = hp0"
    using t1 Cons.prems(2,3) by (metis min.absorb2 take_take min.commute)
  have "length hp0 \<le> length hp1" using l1 Cons.prems(2) by simp
  from Cons.IH[OF ns this t0, of "res @ [length hp]"] obtain hp' where
    r: "apply_loop positions ns (res @ [length hp], hp1) =
          Inr ((res @ [length hp]) @ [length hp1 ..< length hp1 + length ns], hp')"
    and l': "length hp' = length hp1 + length ns" and t': "take (length hp1) hp' = hp1"
    and v': "\<forall>i < length ns. hp' ! (length hp1 + i) = with_position positions (hp0 ! (ns ! i))"
    by blast
  have upt: "[length hp ..< length hp + length (n # ns)] = length hp # [length hp1 ..< length hp1 + length ns]"
    using l1 by (subst upt_rec) simp
  have tk: "take (length hp) hp' = hp"
    using t' t1 l1 by (metis le_add2 min.absorb2 take_take plus_1_eq_Suc min.commute)
  have first: "hp' ! length hp = with_position positions (hp0 ! n)"
  proof -
    have "hp' ! length hp = hp1 ! length hp" using t' l1 by (metis lessI nth_take)
    then show ?thesis using v1 hn by simp
  qed
  have "\<forall>i < length (n # ns). hp' ! (length hp + i) = with_position positions (hp0 ! ((n # ns) ! i))"
  proof (intro allI impI)
    fix i assume "i < length (n # ns)"
    show "hp' ! (length hp + i) = with_position positions (hp0 ! ((n # ns) ! i))"
    proof (cases i)
      case 0 then show ?thesis using first by simp
    next
      case (Suc j)
      then have "j < length ns" using \<open>i < length (n # ns)\<close> by simp
      then show ?thesis using v' l1 Suc by simp
    qed
  qed
  then show ?case using s r l' l1 tk upt by simp
qed


lemma apply_layout_result:
  assumes "nodes_ok hp nodes"
  shows "\<exists>hp'. apply_layout_to_nodes hp nodes positions =
               Inr ([length hp ..< length hp + length nodes], hp') \<and>
           length hp' = length hp + length nodes \<and> take (length hp) hp' = hp \<and>
           (\<forall>i < length nodes. hp' ! (length hp + i) = with_position positions (hp ! (nodes ! i)))"
  using apply_loop_ok[OF assms, of hp positions "[]"] by (simp add: apply_layout_to_nodes_def)

text \<open>
  Claim C9.  For well-formed input \<^verbatim>\<open>apply_layout_to_nodes\<close> returns a new list of
  references to new objects, as many as there are input nodes and pairwise different.  Every
  new object is a copy of the corresponding input node: it holds exactly the items of that
  node when the node's id is not a key of the positions map, and exactly those items with
  \<^verbatim>\<open>x\<close> and \<^verbatim>\<open>y\<close> set from the positions map when it is.  Every object that existed
  before the call, so every input node record, is unchanged.
\<close>

theorem apply_layout_copies:
  assumes "nodes_ok hp nodes"
  shows "\<exists>result hp'. apply_layout_to_nodes hp nodes positions = Inr (result, hp') \<and>
           take (length hp) hp' = hp \<and>
           length result = length nodes \<and> distinct result \<and>
           (\<forall>i < length nodes.
              length hp \<le> result ! i \<and> result ! i < length hp' \<and>
              hp' ! (result ! i) = with_position positions (hp ! (nodes ! i)) \<and>
              (\<forall>v. (hp ! (nodes ! i)) ''id'' = Some v \<and> position_of positions v = None \<longrightarrow>
                 hp' ! (result ! i) = hp ! (nodes ! i)) \<and>
              (\<forall>s x y. (hp ! (nodes ! i)) ''id'' = Some (PStr s) \<and> positions s = Some (x, y) \<longrightarrow>
                 hp' ! (result ! i) = (hp ! (nodes ! i))(''x'' \<mapsto> PInt x, ''y'' \<mapsto> PInt y)))"
proof -
  from apply_layout_result[OF assms, of positions] obtain hp' where
    r: "apply_layout_to_nodes hp nodes positions =
          Inr ([length hp ..< length hp + length nodes], hp')"
    and l: "length hp' = length hp + length nodes" and t: "take (length hp) hp' = hp"
    and v: "\<forall>i < length nodes. hp' ! (length hp + i) = with_position positions (hp ! (nodes ! i))"
    by blast
  let ?res = "[length hp ..< length hp + length nodes]"
  have "length hp \<le> ?res ! i \<and> ?res ! i < length hp' \<and>
        hp' ! (?res ! i) = with_position positions (hp ! (nodes ! i)) \<and>
        (\<forall>v. (hp ! (nodes ! i)) ''id'' = Some v \<and> position_of positions v = None \<longrightarrow>
           hp' ! (?res ! i) = hp ! (nodes ! i)) \<and>
        (\<forall>s x y. (hp ! (nodes ! i)) ''id'' = Some (PStr s) \<and> positions s = Some (x, y) \<longrightarrow>
           hp' ! (?res ! i) = (hp ! (nodes ! i))(''x'' \<mapsto> PInt x, ''y'' \<mapsto> PInt y))"
    if i: "i < length nodes" for i
  proof -
    have n: "?res ! i = length hp + i" using i by simp
    have w: "hp' ! (length hp + i) = with_position positions (hp ! (nodes ! i))"
      using v i by blast
    have "\<forall>v. (hp ! (nodes ! i)) ''id'' = Some v \<and> position_of positions v = None \<longrightarrow>
            with_position positions (hp ! (nodes ! i)) = hp ! (nodes ! i)"
      by (simp add: with_position_def)
    moreover have "\<forall>s x y. (hp ! (nodes ! i)) ''id'' = Some (PStr s) \<and> positions s = Some (x, y) \<longrightarrow>
            with_position positions (hp ! (nodes ! i)) =
              (hp ! (nodes ! i))(''x'' \<mapsto> PInt x, ''y'' \<mapsto> PInt y)"
      by (simp add: with_position_def position_of_def)
    ultimately show ?thesis using n w l i by simp
  qed
  then have all: "\<forall>i < length nodes.
        length hp \<le> ?res ! i \<and> ?res ! i < length hp' \<and>
        hp' ! (?res ! i) = with_position positions (hp ! (nodes ! i)) \<and>
        (\<forall>v. (hp ! (nodes ! i)) ''id'' = Some v \<and> position_of positions v = None \<longrightarrow>
           hp' ! (?res ! i) = hp ! (nodes ! i)) \<and>
        (\<forall>s x y. (hp ! (nodes ! i)) ''id'' = Some (PStr s) \<and> positions s = Some (x, y) \<longrightarrow>
           hp' ! (?res ! i) = (hp ! (nodes ! i))(''x'' \<mapsto> PInt x, ''y'' \<mapsto> PInt y))"
    by blast
  have "length ?res = length nodes" "distinct ?res" by simp_all
  then show ?thesis using r t all
    by (intro exI[of _ ?res] exI[of _ hp'] conjI)
qed

theorem apply_layout_copies_witness:
  "nodes_ok [[''id'' \<mapsto> PStr ''A'', ''label'' \<mapsto> PStr ''A''], [''id'' \<mapsto> PStr ''B'']] [0, 1] \<and>
   (\<exists>result hp'. apply_layout_to_nodes
                    [[''id'' \<mapsto> PStr ''A'', ''label'' \<mapsto> PStr ''A''], [''id'' \<mapsto> PStr ''B'']] [0, 1]
                    [''A'' \<mapsto> (100, 200)] = Inr (result, hp') \<and>
      take 2 hp' = [[''id'' \<mapsto> PStr ''A'', ''label'' \<mapsto> PStr ''A''], [''id'' \<mapsto> PStr ''B'']] \<and>
      hp' ! (result ! 0) = [''id'' \<mapsto> PStr ''A'', ''label'' \<mapsto> PStr ''A'',
                              ''x'' \<mapsto> PInt 100, ''y'' \<mapsto> PInt 200] \<and>
      hp' ! (result ! 1) = [''id'' \<mapsto> PStr ''B''])"
proof -
  let ?hp = "[[''id'' \<mapsto> PStr ''A'', ''label'' \<mapsto> PStr ''A''], [''id'' \<mapsto> PStr ''B'']]"
  have ok: "nodes_ok ?hp [0, 1]"
    by (simp add: nodes_ok_def)
  from apply_layout_copies[OF ok, of "[''A'' \<mapsto> (100, 200)]"] obtain result hp' where
    r: "apply_layout_to_nodes ?hp [0, 1] [''A'' \<mapsto> (100, 200)] = Inr (result, hp')"
    and t: "take (length ?hp) hp' = ?hp"
    and a: "\<forall>i < length [0::nat, 1].
              hp' ! (result ! i) = with_position [''A'' \<mapsto> (100, 200)] (?hp ! ([0, 1] ! i))"
    by blast
  have "hp' ! (result ! 0) = with_position [''A'' \<mapsto> (100, 200)] (?hp ! 0)"
    using a by force
  then have a0: "hp' ! (result ! 0) = [''id'' \<mapsto> PStr ''A'', ''label'' \<mapsto> PStr ''A'',
                                        ''x'' \<mapsto> PInt 100, ''y'' \<mapsto> PInt 200]"
    by (simp add: with_position_def position_of_def)
  have "hp' ! (result ! 1) = with_position [''A'' \<mapsto> (100, 200)] (?hp ! 1)"
    using a by force
  then have a1: "hp' ! (result ! 1) = [''id'' \<mapsto> PStr ''B'']"
    by (simp add: with_position_def position_of_def)
  have "length ?hp = 2" by simp
  then have t2: "take 2 hp' = ?hp" using t by (simp only:)
  show ?thesis using ok r t2 a0 a1 by blast
qed

text \<open>
  Claim C10.  The output of \<^verbatim>\<open>apply_layout_to_nodes\<close> has the length and the order of the
  input: the i-th output record carries the id of the i-th input node.  A node whose id is
  not a key of the positions map is still in the output, as a copy with the same items as
  the input record and nothing added.
\<close>

theorem apply_layout_keeps_all_nodes:
  assumes "nodes_ok hp nodes"
  shows "\<exists>result hp'. apply_layout_to_nodes hp nodes positions = Inr (result, hp') \<and>
           length result = length nodes \<and>
           (\<forall>i < length nodes.
              (hp' ! (result ! i)) ''id'' = (hp ! (nodes ! i)) ''id'' \<and>
              ((\<forall>v. (hp ! (nodes ! i)) ''id'' = Some v \<longrightarrow> position_of positions v = None) \<longrightarrow>
                 length hp \<le> result ! i \<and> hp' ! (result ! i) = hp ! (nodes ! i)))"
proof -
  from apply_layout_result[OF assms, of positions] obtain hp' where
    r: "apply_layout_to_nodes hp nodes positions =
          Inr ([length hp ..< length hp + length nodes], hp')"
    and v: "\<forall>i < length nodes. hp' ! (length hp + i) = with_position positions (hp ! (nodes ! i))"
    by blast
  have "\<forall>i < length nodes.
          (hp' ! ([length hp ..< length hp + length nodes] ! i)) ''id'' = (hp ! (nodes ! i)) ''id'' \<and>
          ((\<forall>v. (hp ! (nodes ! i)) ''id'' = Some v \<longrightarrow> position_of positions v = None) \<longrightarrow>
             length hp \<le> [length hp ..< length hp + length nodes] ! i \<and>
             hp' ! ([length hp ..< length hp + length nodes] ! i) = hp ! (nodes ! i))"
    using v by (auto simp: with_position_def split: option.splits)
  then show ?thesis using r by (intro exI[of _ "[length hp ..< length hp + length nodes]"] exI[of _ hp']) auto
qed

theorem apply_layout_keeps_all_nodes_witness:
  "nodes_ok [[''id'' \<mapsto> PStr ''A''], [''id'' \<mapsto> PStr ''B'']] [0, 1] \<and>
   (\<exists>result hp'. apply_layout_to_nodes [[''id'' \<mapsto> PStr ''A''], [''id'' \<mapsto> PStr ''B'']] [0, 1]
                    [''A'' \<mapsto> (100, 200)] = Inr (result, hp') \<and>
      length result = 2 \<and>
      (hp' ! (result ! 0)) ''id'' = Some (PStr ''A'') \<and>
      hp' ! (result ! 1) = [''id'' \<mapsto> PStr ''B''])"
proof -
  have ok: "nodes_ok [[''id'' \<mapsto> PStr ''A''], [''id'' \<mapsto> PStr ''B'']] [0, 1]"
    by (simp add: nodes_ok_def)
  from apply_layout_keeps_all_nodes[OF ok, of "[''A'' \<mapsto> (100, 200)]"] obtain result hp' where
    r: "apply_layout_to_nodes [[''id'' \<mapsto> PStr ''A''], [''id'' \<mapsto> PStr ''B'']] [0, 1]
          [''A'' \<mapsto> (100, 200)] = Inr (result, hp')"
    and l: "length result = 2"
    and a: "\<forall>i < 2. (hp' ! (result ! i)) ''id'' =
               ([[''id'' \<mapsto> PStr ''A''], [''id'' \<mapsto> PStr ''B'']] ! ([0, 1] ! i)) ''id'' \<and>
             ((\<forall>v. ([[''id'' \<mapsto> PStr ''A''], [''id'' \<mapsto> PStr ''B'']] ! ([0, 1] ! i)) ''id'' = Some v \<longrightarrow>
                   position_of [''A'' \<mapsto> (100, 200)] v = None) \<longrightarrow>
                length [[''id'' \<mapsto> PStr ''A''], [''id'' \<mapsto> PStr ''B'']] \<le> result ! i \<and>
                hp' ! (result ! i) = [[''id'' \<mapsto> PStr ''A''], [''id'' \<mapsto> PStr ''B'']] ! ([0, 1] ! i))"
    by auto
  have "(hp' ! (result ! 0)) ''id'' = Some (PStr ''A'')" using a by auto
  moreover have "hp' ! (result ! 1) = [''id'' \<mapsto> PStr ''B'']"
    using a by (auto simp: position_of_def)
  ultimately show ?thesis using ok r l by blast
qed

section \<open>The order map is a bijection on every layer\<close>

text \<open>
  On one layer the order map is defined for every node and maps the layer's nodes one to one
  onto \<open>0..layerSize-1\<close>.
\<close>

definition layer_order_ok :: "(string \<rightharpoonup> int) \<Rightarrow> string list \<Rightarrow> bool" where
  "layer_order_ok node_orders node_list =
     ((\<forall>n \<in> set node_list. node_orders n \<noteq> None) \<and>
      bij_betw (\<lambda>n. the (node_orders n)) (set node_list) {0..<int (length node_list)})"

definition order_ok :: "layer_dict \<Rightarrow> (string \<rightharpoonup> int) \<Rightarrow> bool" where
  "order_ok nodes_by_layer node_orders =
     (\<forall>node_list \<in> snd ` set nodes_by_layer. layer_order_ok node_orders node_list)"

lemma enum_fold_snoc:
  "foldl set_order m (enumerate k (xs @ [x])) =
   (foldl set_order m (enumerate k xs))(x \<mapsto> int (k + length xs))"
  by (simp add: enumerate_append_eq set_order_def)

lemma enum_fold_notin:
  "n \<notin> set xs \<Longrightarrow> foldl set_order m (enumerate k xs) n = m n"
proof (induction xs rule: rev_induct)
  case Nil
  then show ?case by simp
next
  case (snoc x xs)
  then show ?case by (simp add: enum_fold_snoc)
qed

lemma enum_fold_nth:
  "distinct xs \<Longrightarrow> i < length xs \<Longrightarrow>
   foldl set_order m (enumerate k xs) (xs ! i) = Some (int (k + i))"
proof (induction xs rule: rev_induct)
  case Nil
  then show ?case by simp
next
  case (snoc x xs)
  show ?case
  proof (cases "i < length xs")
    case True
    then have "(xs @ [x]) ! i = xs ! i" "xs ! i \<noteq> x"
      using snoc.prems by (auto simp: nth_append)
    then show ?thesis using snoc.IH True snoc.prems by (simp add: enum_fold_snoc)
  next
    case False
    then have "i = length xs" using snoc.prems by simp
    then show ?thesis by (simp add: enum_fold_snoc)
  qed
qed

lemma assign_enum_notin: "n \<notin> set xs \<Longrightarrow> assign_enum m xs n = m n"
  by (simp add: assign_enum_def enum_fold_notin)

lemma assign_enum_nth:
  "distinct xs \<Longrightarrow> i < length xs \<Longrightarrow> assign_enum m xs (xs ! i) = Some (int i)"
  using enum_fold_nth[of xs i m 0] by (simp add: assign_enum_def)

lemma dom_assign_enum: "dom (assign_enum m xs) = dom m \<union> set xs"
proof -
  have "dom (foldl set_order m (enumerate k xs)) = dom m \<union> set xs" for k
  proof (induction xs rule: rev_induct)
    case Nil
    then show ?case by simp
  next
    case (snoc x xs)
    show ?case by (subst enum_fold_snoc) (simp add: snoc)
  qed
  then show ?thesis by (simp add: assign_enum_def)
qed

lemma layer_order_ok_disjoint:
  assumes "set xs \<inter> set ns = {}" "layer_order_ok m ns"
  shows "layer_order_ok (assign_enum m xs) ns"
proof -
  have eq: "\<And>n. n \<in> set ns \<Longrightarrow> assign_enum m xs n = m n"
    using assms(1) by (intro assign_enum_notin) auto
  have "bij_betw (\<lambda>n. the (assign_enum m xs n)) (set ns) {0..<int (length ns)}
        = bij_betw (\<lambda>n. the (m n)) (set ns) {0..<int (length ns)}"
    by (rule bij_betw_cong) (simp add: eq)
  then show ?thesis using assms(2) eq by (simp add: layer_order_ok_def)
qed

lemma layer_order_ok_perm:
  assumes "distinct ns" "mset xs = mset ns"
  shows "layer_order_ok (assign_enum m xs) ns"
proof -
  have d: "distinct xs" using assms by (metis mset_eq_imp_distinct_iff)
  have s: "set xs = set ns" using assms(2) by (metis mset_eq_setD)
  have l: "length xs = length ns" using assms(2) by (metis mset_eq_length)
  let ?f = "\<lambda>n. the (assign_enum m xs n)"
  let ?g = "\<lambda>i. xs ! nat i"
  have fg: "\<And>i. i < length xs \<Longrightarrow> ?f (xs ! i) = int i"
    by (simp add: assign_enum_nth d)
  have "bij_betw ?f (set xs) {0..<int (length xs)}"
  proof (rule bij_betw_byWitness[where f' = ?g])
    show "\<forall>a\<in>set xs. xs ! nat (?f a) = a"
      using fg by (auto simp: in_set_conv_nth)
    show "\<forall>a'\<in>{0..<int (length xs)}. ?f (xs ! nat a') = a'"
      using fg by auto
    show "?f ` set xs \<subseteq> {0..<int (length xs)}"
      using fg by (auto simp: in_set_conv_nth)
    show "?g ` {0..<int (length xs)} \<subseteq> set xs"
      by auto
  qed
  moreover have "\<forall>n\<in>set xs. assign_enum m xs n \<noteq> None"
    using dom_assign_enum[of m xs] by blast
  ultimately show ?thesis using s l by (simp add: layer_order_ok_def)
qed

lemma order_ok_assign:
  assumes dc: "distinct (concat (map snd nbl))" and ok: "order_ok nbl m"
    and ns: "ns \<in> snd ` set nbl" and p: "mset xs = mset ns"
  shows "order_ok nbl (assign_enum m xs)"
  unfolding order_ok_def
proof
  fix ns' assume ns': "ns' \<in> snd ` set nbl"
  have dns: "distinct ns" using dc ns unfolding distinct_concat_iff by auto
  show "layer_order_ok (assign_enum m xs) ns'"
  proof (cases "ns' = ns")
    case True
    then show ?thesis using layer_order_ok_perm[OF dns p] by simp
  next
    case False
    have "ns \<in> set (map snd nbl)" "ns' \<in> set (map snd nbl)" using ns ns' by simp_all
    moreover from dc have "\<And>ys zs. ys \<in> set (map snd nbl) \<Longrightarrow> zs \<in> set (map snd nbl) \<Longrightarrow>
                              ys \<noteq> zs \<Longrightarrow> set ys \<inter> set zs = {}"
      unfolding distinct_concat_iff by blast
    ultimately have "set ns \<inter> set ns' = {}" using False by blast
    then have "set xs \<inter> set ns' = {}" using p by (metis mset_eq_setD)
    moreover have "layer_order_ok m ns'" using ok ns' by (auto simp: order_ok_def)
    ultimately show ?thesis by (rule layer_order_ok_disjoint)
  qed
qed

lemma dict_get_cases: "dict_get d k = [] \<or> dict_get d k \<in> snd ` set d"
proof (cases "map_of d k")
  case None
  then show ?thesis by (simp add: dict_get_def)
next
  case (Some vs)
  then have "(k, vs) \<in> set d" by (rule map_of_SomeD)
  then have "vs \<in> snd ` set d" by force
  then show ?thesis using Some by (simp add: dict_get_def)
qed

lemma reorder_layer_ok:
  assumes "distinct (concat (map snd nbl))" "order_ok nbl m" "ns \<in> snd ` set nbl"
  shows "order_ok nbl (reorder_layer h nb adj ns m)"
  unfolding reorder_layer_def Let_def
proof (rule order_ok_assign[OF assms])
  show "mset (map snd (sort_key (\<lambda>x. (fst x, snd x))
                (map (\<lambda>n. (compute_barycenter h n adj (nb n) m, n)) ns))) = mset ns"
    by (simp add: image_mset.compositionality comp_def)
qed


lemma top_down_step_ok:
  assumes "distinct (concat (map snd nbl))" "order_ok nbl m"
  shows "order_ok nbl (top_down_step h nbl parents lns m i)"
proof (cases "dict_get nbl (lns ! i) \<in> snd ` set nbl")
  case True
  then show ?thesis using assms by (simp add: top_down_step_def Let_def reorder_layer_ok)
next
  case False
  then have "dict_get nbl (lns ! i) = []" using dict_get_cases[of nbl "lns ! i"] by simp
  then show ?thesis using assms by (simp add: top_down_step_def)
qed

lemma bottom_up_step_ok:
  assumes "distinct (concat (map snd nbl))" "order_ok nbl m"
  shows "order_ok nbl (bottom_up_step h nbl children lns m i)"
proof (cases "dict_get nbl (lns ! i) \<in> snd ` set nbl")
  case True
  then show ?thesis using assms by (simp add: bottom_up_step_def Let_def reorder_layer_ok)
next
  case False
  then have "dict_get nbl (lns ! i) = []" using dict_get_cases[of nbl "lns ! i"] by simp
  then show ?thesis using assms by (simp add: bottom_up_step_def)
qed

lemma foldl_preserves: "(\<And>s x. P s \<Longrightarrow> P (f s x)) \<Longrightarrow> P s \<Longrightarrow> P (foldl f s xs)"
  by (induction xs arbitrary: s) simp_all

lemma sweep_ok:
  assumes "distinct (concat (map snd nbl))" "order_ok nbl m"
  shows "order_ok nbl (sweep h nbl children parents lns m)"
  unfolding sweep_def top_down_def bottom_up_def
  by (intro foldl_preserves[where P = "order_ok nbl"] top_down_step_ok bottom_up_step_ok assms)

lemma for_range_preserves: "(\<And>s. P s \<Longrightarrow> P (f s)) \<Longrightarrow> P s \<Longrightarrow> P (for_range n f s)"
  by (induction n arbitrary: s) simp_all

lemma init_fold_ok:
  assumes "distinct (concat (map snd (pre @ rest)))"
    and "\<forall>ns \<in> snd ` set pre. layer_order_ok m ns"
  shows "\<forall>ns \<in> snd ` set (pre @ rest).
           layer_order_ok (foldl (\<lambda>m (layer, node_list). assign_enum m (sort node_list)) m rest) ns"
  using assms
proof (induction rest arbitrary: pre m)
  case Nil
  then show ?case by simp
next
  case (Cons p rest)
  obtain l ns where p: "p = (l, ns)" by (cases p)
  let ?m = "assign_enum m (sort ns)"
  have d: "distinct (concat (map snd ((pre @ [p]) @ rest)))" using Cons.prems(1) by simp
  have dns: "distinct ns" and disj: "set (concat (map snd pre)) \<inter> set ns = {}"
    using Cons.prems(1) p by auto
  have "\<forall>ns' \<in> snd ` set (pre @ [p]). layer_order_ok ?m ns'"
  proof
    fix ns' assume a: "ns' \<in> snd ` set (pre @ [p])"
    show "layer_order_ok ?m ns'"
    proof (cases "ns' = ns")
      case True
      then show ?thesis using layer_order_ok_perm[OF dns, of "sort ns" m] by simp
    next
      case False
      then have in_pre: "ns' \<in> snd ` set pre" using a p by auto
      then have "set ns' \<subseteq> set (concat (map snd pre))" by auto
      then have "set (sort ns) \<inter> set ns' = {}" using disj by auto
      moreover have "layer_order_ok m ns'" using Cons.prems(2) in_pre by blast
      ultimately show ?thesis by (rule layer_order_ok_disjoint)
    qed
  qed
  from Cons.IH[OF d this] show ?case using p by simp
qed

lemma init_orders_ok:
  "distinct (concat (map snd nbl)) \<Longrightarrow> order_ok nbl (init_orders nbl)"
  using init_fold_ok[of "[]" nbl Map.empty] by (simp add: order_ok_def init_orders_def)

lemma map_add_enum_fold:
  "m ++ foldl set_order m' (enumerate k xs) = foldl set_order (m ++ m') (enumerate k xs)"
proof (induction xs arbitrary: m' k)
  case Nil
  then show ?case by simp
next
  case (Cons x xs)
  have "m ++ set_order m' (k, x) = set_order (m ++ m') (k, x)"
    by (simp add: set_order_def)
  then show ?case using Cons[of "set_order m' (k, x)" "Suc k"] by simp
qed

lemma map_add_assign_enum: "m ++ assign_enum Map.empty xs = assign_enum m xs"
  using map_add_enum_fold[of m Map.empty 0 xs] by (simp add: assign_enum_def)

lemma dict_append_mset:
  "mset (concat (map snd (dict_append k v d))) = mset (concat (map snd d)) + {#v#}"
  by (induction d) auto

lemma group_fold_mset:
  "mset (concat (map snd (foldl (\<lambda>groups n. dict_append (key n) n groups) g ns))) =
   mset (concat (map snd g)) + mset ns"
  by (induction ns arbitrary: g) (simp_all add: dict_append_mset)

lemma group_nodes_mset: "mset (concat (map snd (group_nodes parents ns))) = mset ns"
  by (simp add: group_nodes_def group_fold_mset)

lemma mset_concat_map_sort_key:
  "mset (concat (map f (sort_key k xs))) = mset (concat (map f xs))"
proof -
  have "mset (concat (map f ys)) = sum_mset (image_mset (\<lambda>y. mset (f y)) (mset ys))" for ys
    by (induction ys) simp_all
  then show ?thesis by simp
qed

lemma bottom_order_mset:
  "mset (concat (map (\<lambda>x. sort (snd (snd x))) (sorted_groups parents po ns))) = mset ns"
proof -
  let ?gs = "map (\<lambda>(key, members). (group_position po key, key, members)) (group_nodes parents ns)"
  have "mset (concat (map (\<lambda>x. sort (snd (snd x)))
               (map (\<lambda>(key, members). (group_position po key, key, members)) gs))) =
        mset (concat (map snd gs))" for gs :: "(string list \<times> string list) list"
    by (induction gs) auto
  then have "mset (concat (map (\<lambda>x. sort (snd (snd x))) ?gs)) =
             mset (concat (map snd (group_nodes parents ns)))" .
  then show ?thesis by (simp add: sorted_groups_def mset_concat_map_sort_key group_nodes_mset)
qed

lemma barycenter_ordering_ok:
  assumes dc: "distinct (concat (map snd nbl))"
  shows "order_ok nbl (barycenter_ordering h nbl children parents iterations)"
proof -
  let ?lns = "sort (map fst nbl)"
  let ?m = "for_range (nat iterations) (sweep h nbl children parents ?lns) (init_orders nbl)"
  have m: "order_ok nbl ?m"
    by (intro for_range_preserves[where P = "order_ok nbl"] sweep_ok dc init_orders_ok)
  let ?b = "dict_get nbl (last ?lns)"
  show ?thesis
  proof (cases "?lns \<noteq> [] \<and> length ?b > 1 \<and> length ?lns > 1")
    case True
    then have "?b \<noteq> []" by auto
    then have b: "?b \<in> snd ` set nbl" using dict_get_cases[of nbl "last ?lns"] by simp
    have "order_ok nbl (assign_enum ?m (concat (map (\<lambda>x. sort (snd (snd x)))
                                                 (sorted_groups parents ?m ?b))))"
      by (rule order_ok_assign[OF dc m b]) (rule bottom_order_mset)
    then show ?thesis using True
      by (simp add: barycenter_ordering_def Let_def order_bottom_layer_by_support_def
          map_add_assign_enum)
  next
    case False
    then show ?thesis using m by (auto simp: barycenter_ordering_def Let_def)
  qed
qed

text \<open>
  Claim C8.  When no node id occurs twice in the layers, the order map restricts on every
  layer to a bijection onto \<open>0..layerSize-1\<close>: after the initialisation, after the step
  of every top-down and of every bottom-up pass, after any number of sweeps, and in the map
  that \<^verbatim>\<open>barycenter_ordering\<close> returns once the bottom layer has been regrouped.
\<close>

theorem order_map_bijection:
  assumes "distinct (concat (map snd nodes_by_layer))"
  shows "order_ok nodes_by_layer (init_orders nodes_by_layer) \<and>
         (\<forall>node_orders layer_numbers layer_idx.
            order_ok nodes_by_layer node_orders \<longrightarrow>
              order_ok nodes_by_layer
                (top_down_step h nodes_by_layer parents layer_numbers node_orders layer_idx) \<and>
              order_ok nodes_by_layer
                (bottom_up_step h nodes_by_layer children layer_numbers node_orders layer_idx)) \<and>
         (\<forall>k. order_ok nodes_by_layer
                (for_range k (sweep h nodes_by_layer children parents
                                (sort (map fst nodes_by_layer)))
                   (init_orders nodes_by_layer))) \<and>
         order_ok nodes_by_layer
           (barycenter_ordering h nodes_by_layer children parents iterations)"
proof (intro conjI allI impI)
  show "order_ok nodes_by_layer (init_orders nodes_by_layer)"
    by (rule init_orders_ok[OF assms])
  show "order_ok nodes_by_layer
          (barycenter_ordering h nodes_by_layer children parents iterations)"
    by (rule barycenter_ordering_ok[OF assms])
  show "order_ok nodes_by_layer
          (for_range k (sweep h nodes_by_layer children parents (sort (map fst nodes_by_layer)))
             (init_orders nodes_by_layer))" for k
    by (intro for_range_preserves[where P = "order_ok nodes_by_layer"] sweep_ok assms
        init_orders_ok)
next
  fix node_orders layer_numbers layer_idx
  assume ok: "order_ok nodes_by_layer node_orders"
  show "order_ok nodes_by_layer
          (top_down_step h nodes_by_layer parents layer_numbers node_orders layer_idx)"
    by (rule top_down_step_ok[OF assms ok])
  show "order_ok nodes_by_layer
          (bottom_up_step h nodes_by_layer children layer_numbers node_orders layer_idx)"
    by (rule bottom_up_step_ok[OF assms ok])
qed

theorem order_map_bijection_witness:
  "distinct (concat (map snd [(0::int, [''a'', ''b'']), (1, [''c'', ''d''])])) \<and>
   order_ok [(0, [''a'', ''b'']), (1, [''c'', ''d''])]
     (barycenter_ordering (\<lambda>s. 0) [(0, [''a'', ''b'']), (1, [''c'', ''d''])]
        (children_of [(''a'', ''d''), (''b'', ''c'')])
        (parents_of [(''a'', ''d''), (''b'', ''c'')]) 8)"
proof -
  have d: "distinct (concat (map snd [(0::int, [''a'', ''b'']), (1, [''c'', ''d''])]))"
    by simp
  from order_map_bijection[OF d] d show ?thesis by blast
qed

section \<open>The pipeline returns a layout\<close>

text \<open>
  The queue loop reads \<^verbatim>\<open>layers[node_id]\<close> only for queued nodes, and every queued node
  has a layer.  So \<^verbatim>\<open>assign_layers\<close> raises nothing and gives every node a layer.
\<close>

lemma visit_child_queue_dom:
  "set (queue st) \<subseteq> dom (layers st) \<Longrightarrow>
   set (queue (visit_child cur st c)) \<subseteq> dom (layers (visit_child cur st c))"
  by (auto simp: visit_child_def Let_def)

lemma process_node_queue_dom:
  "set (queue st) \<subseteq> dom (layers st) \<Longrightarrow>
   set (queue (process_node es st n cur)) \<subseteq> dom (layers (process_node es st n cur))"
  unfolding process_node_def
  by (rule foldl_preserves[where P = "\<lambda>st. set (queue st) \<subseteq> dom (layers st)"])
     (rule visit_child_queue_dom)

lemma process_queue_total:
  "set (queue st) \<subseteq> dom (layers st) \<Longrightarrow> \<exists>st'. process_queue es st = Inr st'"
proof (induction es st rule: process_queue.induct)
  case (1 es st)
  show ?case
  proof (cases "queue st")
    case Nil
    then show ?thesis by (subst process_queue.simps) simp
  next
    case (Cons node_id rest)
    then obtain cur where cur: "layers st node_id = Some cur" using "1.prems" by auto
    have "set (queue (st\<lparr>queue := rest\<rparr>)) \<subseteq> dom (layers (st\<lparr>queue := rest\<rparr>))"
      using "1.prems" Cons by auto
    then have "set (queue (process_node es (st\<lparr>queue := rest\<rparr>) node_id cur))
               \<subseteq> dom (layers (process_node es (st\<lparr>queue := rest\<rparr>) node_id cur))"
      by (rule process_node_queue_dom)
    from "1.IH"[OF Cons cur this] show ?thesis
      using Cons cur by (subst process_queue.simps) simp
  qed
qed

lemma seed_queue_dom:
  "set (queue st) \<subseteq> dom (layers st) \<Longrightarrow> set (queue (seed st n)) \<subseteq> dom (layers (seed st n))"
  by (auto simp: seed_def)

lemma initial_state_queue_dom:
  "set (queue (initial_state ids es)) \<subseteq> dom (layers (initial_state ids es))"
  unfolding initial_state_def
  by (rule foldl_preserves[where P = "\<lambda>st. set (queue st) \<subseteq> dom (layers st)"])
     (simp_all add: seed_queue_dom)

lemma run_queue_total: "\<exists>st. run_queue ids es = Inr st"
  unfolding run_queue_def by (rule process_queue_total) (rule initial_state_queue_dom)

lemma dom_default_layers: "dom (foldl default_layer L ids) = dom L \<union> set ids"
  by (induction ids arbitrary: L) (auto simp: default_layer_def)

lemma default_layer_keep: "L n = Some l \<Longrightarrow> default_layer L a n = Some l"
  by (cases "a = n") (simp_all add: default_layer_def)

lemma default_layers_keep: "L n = Some l \<Longrightarrow> foldl default_layer L ids n = Some l"
  by (induction ids arbitrary: L) (simp_all add: default_layer_keep)

lemma default_layers_new:
  "L n = None \<Longrightarrow> n \<in> set ids \<Longrightarrow> foldl default_layer L ids n = Some 0"
proof (induction ids arbitrary: L)
  case Nil
  then show ?case by simp
next
  case (Cons a ids)
  show ?case
  proof (cases "a = n")
    case True
    then have "default_layer L a n = Some 0" using Cons.prems by (simp add: default_layer_def)
    then show ?thesis by (simp add: default_layers_keep)
  next
    case False
    then have "default_layer L a n = None" using Cons.prems by (simp add: default_layer_def)
    then show ?thesis using Cons False by simp
  qed
qed

lemma assign_layers_total:
  "\<exists>L. assign_layers nodes edges = Inr L \<and> set (map ident nodes) \<subseteq> dom L"
proof -
  obtain st where "run_queue (map ident nodes) (included_edges (set (map ident nodes)) edges) = Inr st"
    using run_queue_total by blast
  then show ?thesis by (simp add: assign_layers_def Let_def dom_default_layers)
qed

lemma dict_get_append:
  "dict_get (dict_append k v d) k' = (if k' = k then dict_get d k @ [v] else dict_get d k')"
  by (induction d) (auto simp: dict_get_def)




lemma group_by_layer_total:
  "set ids \<subseteq> dom L \<Longrightarrow> \<exists>nbl. group_by_layer L ids acc = Inr nbl"
proof (induction ids arbitrary: acc)
  case Nil
  then show ?case by simp
next
  case (Cons n ns)
  then obtain l where "L n = Some l" by auto
  then show ?case using Cons by simp
qed

lemma group_by_layer_mset:
  "group_by_layer L ids acc = Inr nbl \<Longrightarrow>
   mset (concat (map snd nbl)) = mset (concat (map snd acc)) + mset ids"
proof (induction ids arbitrary: acc)
  case Nil
  then show ?case by simp
next
  case (Cons n ns)
  then obtain l where l: "L n = Some l" by (cases "L n") simp_all
  then have "group_by_layer L ns (dict_append l n acc) = Inr nbl" using Cons.prems by simp
  from Cons.IH[OF this] show ?case by (simp add: dict_append_mset)
qed

lemma group_by_layer_get:
  "group_by_layer L ids acc = Inr nbl \<Longrightarrow>
   dict_get nbl l = dict_get acc l @ filter (\<lambda>n. L n = Some l) ids"
proof (induction ids arbitrary: acc)
  case Nil
  then show ?case by simp
next
  case (Cons n ns)
  then obtain l' where l: "L n = Some l'" by (cases "L n") simp_all
  then have "group_by_layer L ns (dict_append l' n acc) = Inr nbl" using Cons.prems by simp
  from Cons.IH[OF this] show ?case using l by (simp add: dict_get_append)
qed



section \<open>Positions\<close>

lemma place_fold_snoc:
  "foldl (set_position sx sp y) P (enumerate k (xs @ [x])) =
   (foldl (set_position sx sp y) P (enumerate k xs))(x \<mapsto> (sx + int (k + length xs) * sp, y))"
  by (simp add: enumerate_append_eq set_position_def)

lemma place_fold_notin:
  "n \<notin> set xs \<Longrightarrow> foldl (set_position sx sp y) P (enumerate k xs) n = P n"
proof (induction xs rule: rev_induct)
  case Nil
  then show ?case by simp
next
  case (snoc x xs)
  then show ?case by (simp add: place_fold_snoc)
qed

lemma place_fold_nth:
  "distinct xs \<Longrightarrow> i < length xs \<Longrightarrow>
   foldl (set_position sx sp y) P (enumerate k xs) (xs ! i) = Some (sx + int (k + i) * sp, y)"
proof (induction xs rule: rev_induct)
  case Nil
  then show ?case by simp
next
  case (snoc x xs)
  show ?case
  proof (cases "i < length xs")
    case True
    then have "(xs @ [x]) ! i = xs ! i" "xs ! i \<noteq> x"
      using snoc.prems by (auto simp: nth_append)
    then show ?thesis using snoc.IH True snoc.prems by (simp add: place_fold_snoc)
  next
    case False
    then have "i = length xs" using snoc.prems by simp
    then show ?thesis by (simp add: place_fold_snoc)
  qed
qed

lemma place_nodes_notin: "n \<notin> set xs \<Longrightarrow> place_nodes sx sp y P xs n = P n"
  by (simp add: place_nodes_def place_fold_notin)

lemma place_nodes_nth:
  "distinct xs \<Longrightarrow> i < length xs \<Longrightarrow> place_nodes sx sp y P xs (xs ! i) = Some (sx + int i * sp, y)"
  using place_fold_nth[of xs i sx sp y P 0] by (simp add: place_nodes_def)

text \<open>Sorting a layer by its order map puts the node of order i at index i.\<close>

lemma sorted_by_order_nth:
  assumes d: "distinct ns" and ok: "layer_order_ok ords ns" and i: "i < length ns"
  shows "the (ords (sort_key (\<lambda>n. the (ords n)) ns ! i)) = int i"
proof -
  let ?f = "\<lambda>n. the (ords n)"
  let ?xs = "sort_key ?f ns"
  have bij: "bij_betw ?f (set ns) {0..<int (length ns)}" using ok by (simp add: layer_order_ok_def)
  have "sorted (map ?f ?xs)" by (rule sorted_sort_key)
  moreover have "distinct (map ?f ?xs)"
    using d bij by (simp add: distinct_map bij_betw_def)
  moreover have "set (map ?f ?xs) = {0..<int (length ns)}"
    using bij by (simp add: bij_betw_def)
  moreover have "sorted (map int [0..<length ns])" "distinct (map int [0..<length ns])"
    by (simp_all add: sorted_map distinct_map inj_on_def sorted_wrt_iff_nth_less)
  moreover have "set (map int [0..<length ns]) = {0..<int (length ns)}"
  proof -
    have "int ` {0..<length ns} = {0..<int (length ns)}"
      by (metis image_int_atLeastLessThan of_nat_0)
    then show ?thesis by simp
  qed
  ultimately have "map ?f ?xs = map int [0..<length ns]"
    by (metis sorted_distinct_set_unique)
  then have "(map ?f ?xs) ! i = (map int [0..<length ns]) ! i" by simp
  then show ?thesis using i by simp
qed

lemma place_sorted_layer:
  assumes d: "distinct ns" and ok: "layer_order_ok ords ns" and n: "n \<in> set ns"
  shows "place_nodes sx sp y P (sort_key (\<lambda>n. the (ords n)) ns) n = Some (sx + the (ords n) * sp, y)"
proof -
  let ?xs = "sort_key (\<lambda>n. the (ords n)) ns"
  have dx: "distinct ?xs" using d by simp
  have "n \<in> set ?xs" using n by simp
  then obtain i where i: "i < length ?xs" "?xs ! i = n" by (metis in_set_conv_nth)
  then have "the (ords n) = int i" using sorted_by_order_nth[OF d ok, of i] by simp
  then show ?thesis using place_nodes_nth[OF dx i(1), of sx sp y P] i(2) by simp
qed

lemma place_layers_Cons:
  "place_layers sp sep ords ((l, ns) # nbl) (P, w) =
     (if \<forall>n \<in> set ns. ords n \<noteq> None
      then place_layers sp sep ords nbl
             (place_nodes (start_x_of (int (length ns)) sp) sp (l * sep) P
                (sort_key (\<lambda>n. the (ords n)) ns),
              max w (int (length ns)))
      else Inl KeyError)"
proof (cases "\<forall>n \<in> set ns. ords n \<noteq> None")
  case True
  then show ?thesis by (auto simp: Let_def)
next
  case False
  then show ?thesis by (auto simp: Let_def)
qed

lemma place_layers_total:
  "\<forall>ns \<in> snd ` set nbl. \<forall>n \<in> set ns. ords n \<noteq> None \<Longrightarrow>
   \<exists>r. place_layers sp sep ords nbl acc = Inr r"
proof (induction nbl arbitrary: acc)
  case Nil
  then show ?case by simp
next
  case (Cons p nbl)
  obtain l ns where p: "p = (l, ns)" by (cases p)
  obtain P w where acc: "acc = (P, w)" by (cases acc)
  have "\<forall>n \<in> set ns. ords n \<noteq> None" using Cons.prems p by auto
  moreover have "\<forall>ns \<in> snd ` set nbl. \<forall>n \<in> set ns. ords n \<noteq> None" using Cons.prems by auto
  ultimately show ?case using Cons.IH unfolding p acc place_layers_Cons by simp
qed

lemma place_layers_keep:
  "place_layers sp sep ords nbl (P, w) = Inr (P', w') \<Longrightarrow> n \<notin> set (concat (map snd nbl)) \<Longrightarrow>
   P' n = P n"
proof (induction nbl arbitrary: P w)
  case Nil
  then show ?case by simp
next
  case (Cons p nbl)
  obtain l ns where p: "p = (l, ns)" by (cases p)
  let ?P = "place_nodes (start_x_of (int (length ns)) sp) sp (l * sep) P (sort_key (\<lambda>n. the (ords n)) ns)"
  have r: "place_layers sp sep ords nbl (?P, max w (int (length ns))) = Inr (P', w')"
    using Cons.prems(1) unfolding p place_layers_Cons by (simp split: if_splits)
  have "n \<notin> set (concat (map snd nbl))" "n \<notin> set ns" using Cons.prems(2) p by auto
  then show ?case using Cons.IH[OF r] by (simp add: place_nodes_notin)
qed

lemma place_layers_position:
  assumes "place_layers sp sep ords nbl (P, w) = Inr (P', w')"
    and "distinct (concat (map snd nbl))"
    and "\<forall>ns \<in> snd ` set nbl. layer_order_ok ords ns"
    and "(l, ns) \<in> set nbl" and "n \<in> set ns"
  shows "P' n = Some (start_x_of (int (length ns)) sp + the (ords n) * sp, l * sep)"
  using assms
proof (induction nbl arbitrary: P w)
  case Nil
  then show ?case by simp
next
  case (Cons p nbl)
  obtain l0 ns0 where p: "p = (l0, ns0)" by (cases p)
  let ?P = "place_nodes (start_x_of (int (length ns0)) sp) sp (l0 * sep) P
              (sort_key (\<lambda>n. the (ords n)) ns0)"
  have r: "place_layers sp sep ords nbl (?P, max w (int (length ns0))) = Inr (P', w')"
    using Cons.prems(1) unfolding p place_layers_Cons by (simp split: if_splits)
  have d0: "distinct ns0" and dr: "distinct (concat (map snd nbl))"
    and disj: "set ns0 \<inter> set (concat (map snd nbl)) = {}"
    using Cons.prems(2) p by auto
  have okr: "\<forall>ns \<in> snd ` set nbl. layer_order_ok ords ns" and ok0: "layer_order_ok ords ns0"
    using Cons.prems(3) p by auto
  show ?case
  proof (cases "(l, ns) \<in> set nbl")
    case True
    from Cons.IH[OF r dr okr True Cons.prems(5)] show ?thesis .
  next
    case False
    then have eq: "l = l0" "ns = ns0" using Cons.prems(4) p by auto
    then have "n \<notin> set (concat (map snd nbl))" using disj Cons.prems(5) by auto
    then have "P' n = ?P n" using place_layers_keep[OF r] by simp
    then show ?thesis using place_sorted_layer[OF d0 ok0, of n] Cons.prems(5) eq by simp
  qed
qed

lemma dict_get_nonempty_entry: "dict_get d k \<noteq> [] \<Longrightarrow> (k, dict_get d k) \<in> set d"
  by (cases "map_of d k") (auto simp: dict_get_def dest: map_of_SomeD)

lemma order_stage_result:
  assumes d: "distinct (map ident nodes)"
  shows "\<exists>L nbl ords. order_stage h nodes edges iterations = Inr (L, nbl, ords) \<and>
           assign_layers nodes edges = Inr L \<and>
           set (map ident nodes) \<subseteq> dom L \<and>
           distinct (concat (map snd nbl)) \<and>
           (\<forall>l. dict_get nbl l = filter (\<lambda>n. L n = Some l) (map ident nodes)) \<and>
           ords = barycenter_ordering h nbl
                    (children_of (included_edges (set (map ident nodes)) edges))
                    (parents_of (included_edges (set (map ident nodes)) edges)) iterations \<and>
           order_ok nbl ords"
proof -
  obtain L where L: "assign_layers nodes edges = Inr L" "set (map ident nodes) \<subseteq> dom L"
    using assign_layers_total by blast
  obtain nbl where nbl: "group_by_layer L (map ident nodes) [] = Inr nbl"
    using group_by_layer_total[OF L(2)] by blast
  have "mset (concat (map snd nbl)) = mset (map ident nodes)"
    using group_by_layer_mset[OF nbl] by simp
  then have dc: "distinct (concat (map snd nbl))"
    using d by (metis mset_eq_imp_distinct_iff)
  have g: "\<forall>l. dict_get nbl l = filter (\<lambda>n. L n = Some l) (map ident nodes)"
    using group_by_layer_get[OF nbl] by (simp add: dict_get_def)
  let ?es = "included_edges (set (map ident nodes)) edges"
  let ?ords = "barycenter_ordering h nbl (children_of ?es) (parents_of ?es) iterations"
  have "order_stage h nodes edges iterations = Inr (L, nbl, ?ords)"
    using L(1) nbl by (simp add: order_stage_def Let_def)
  then show ?thesis using L dc g barycenter_ordering_ok[OF dc] by blast
qed

lemma layout_positions:
  assumes d: "distinct (map ident nodes)" and n: "n \<in> set (map ident nodes)"
  shows "\<exists>positions metrics node_layers nodes_by_layer node_orders layer i.
           compute_layout_positions h nodes edges node_spacing layer_separation iterations
             = Inr (positions, metrics, node_layers) \<and>
           order_stage h nodes edges iterations = Inr (node_layers, nodes_by_layer, node_orders) \<and>
           node_layers n = Some layer \<and> node_orders n = Some i \<and>
           positions n =
             Some (start_x_of (int (length (filter (\<lambda>m. node_layers m = Some layer)
                                                     (map ident nodes))))
                     node_spacing + i * node_spacing,
                   layer * layer_separation)"
proof -
  from order_stage_result[OF d, of h edges iterations] obtain L nbl ords where
    os: "order_stage h nodes edges iterations = Inr (L, nbl, ords)"
    and dom: "set (map ident nodes) \<subseteq> dom L"
    and dc: "distinct (concat (map snd nbl))"
    and g: "\<forall>l. dict_get nbl l = filter (\<lambda>n. L n = Some l) (map ident nodes)"
    and ok: "order_ok nbl ords" by blast
  have ok': "\<forall>ns \<in> snd ` set nbl. layer_order_ok ords ns" using ok by (simp add: order_ok_def)
  then have "\<forall>ns \<in> snd ` set nbl. \<forall>n \<in> set ns. ords n \<noteq> None"
    by (simp add: layer_order_ok_def)
  then obtain r where "place_layers node_spacing layer_separation ords nbl (Map.empty, 0) = Inr r"
    using place_layers_total by blast
  then obtain P w where
    pl: "place_layers node_spacing layer_separation ords nbl (Map.empty, 0) = Inr (P, w)"
    by (cases r) auto
  obtain l where l: "L n = Some l" using dom n by auto
  let ?ns = "filter (\<lambda>m. L m = Some l) (map ident nodes)"
  have nin: "n \<in> set ?ns" using n l by simp
  then have "?ns \<noteq> []" by (metis empty_iff empty_set)
  then have "dict_get nbl l \<noteq> []" using g by simp
  then have ent: "(l, ?ns) \<in> set nbl" using dict_get_nonempty_entry[of nbl l] g by simp
  have pos: "P n = Some (start_x_of (int (length ?ns)) node_spacing + the (ords n) * node_spacing,
                         l * layer_separation)"
    by (rule place_layers_position[OF pl dc ok' ent nin])
  have "layer_order_ok ords ?ns" using ok' ent by force
  then obtain i where i: "ords n = Some i" using nin by (auto simp: layer_order_ok_def)
  have pos': "P n = Some (start_x_of (int (length ?ns)) node_spacing + i * node_spacing,
                          l * layer_separation)"
    using pos i by simp
  have ne: "nodes \<noteq> []" using n by auto
  let ?metrics = "[''crossings'' \<mapsto> count_edge_crossings nbl edges ords L,
                   ''layers'' \<mapsto> int (length nbl),
                   ''max_layer_width'' \<mapsto> w,
                   ''total_nodes'' \<mapsto> int (length nodes),
                   ''total_edges'' \<mapsto> int (length edges)]"
  have cl: "compute_layout_positions h nodes edges node_spacing layer_separation iterations
          = Inr (P, ?metrics, L)"
    using ne os pl by (simp add: compute_layout_positions_def)
  show ?thesis
    apply (rule exI[of _ P])
    apply (rule exI[of _ ?metrics])
    apply (rule exI[of _ L])
    apply (rule exI[of _ nbl])
    apply (rule exI[of _ ords])
    apply (rule exI[of _ l])
    apply (rule exI[of _ i])
    apply (intro conjI cl os l i pos')
    done
qed

text \<open>Results of a call, read off the returned triple.\<close>

definition layout_position :: "py_error + layout \<Rightarrow> string \<Rightarrow> (int \<times> int) option" where
  "layout_position r n =
     (case r of Inl e \<Rightarrow> None | Inr (positions, metrics, node_layers) \<Rightarrow> positions n)"

definition layout_layer :: "py_error + layout \<Rightarrow> string \<Rightarrow> int option" where
  "layout_layer r n =
     (case r of Inl e \<Rightarrow> None | Inr (positions, metrics, node_layers) \<Rightarrow> node_layers n)"

definition layout_metric :: "py_error + layout \<Rightarrow> string \<Rightarrow> int option" where
  "layout_metric r k =
     (case r of Inl e \<Rightarrow> None | Inr (positions, metrics, node_layers) \<Rightarrow> metrics k)"

text \<open>Inputs for concrete runs: node and edge records without payload, and a constant hash.\<close>

definition mk_nodes :: "string list \<Rightarrow> node list" where
  "mk_nodes ids = map (\<lambda>s. \<lparr>ident = s\<rparr>) ids"

definition mk_edges :: "(string \<times> string) list \<Rightarrow> edge list" where
  "mk_edges es = map (\<lambda>e. \<lparr>source = fst e, target = snd e\<rparr>) es"

definition zero_hash :: "string \<Rightarrow> int" where
  "zero_hash s = 0"

text \<open>
  The start of a layer as the specification words it: \<open>-floor(width/2)\<close> for more than one
  node, else 0.
\<close>

definition spec_start_x :: "int \<Rightarrow> int \<Rightarrow> int" where
  "spec_start_x layer_width node_spacing =
     (if layer_width > 1 then - (((layer_width - 1) * node_spacing) div 2) else 0)"

text \<open>
  Claim C7, as the code has it.  For unique node ids the call returns a layout, and a node of
  layer \<open>layer\<close> with final order index \<open>i\<close>, in a layer of \<open>count\<close> nodes, is placed
  at \<open>x = start_x + i * node_spacing\<close> and \<open>y = layer * layer_separation\<close>, where
  \<open>start_x = floor(-((count - 1) * node_spacing) / 2)\<close> for \<open>count > 1\<close> and 0 otherwise.
\<close>

theorem layout_positions_formula:
  assumes "distinct (map ident nodes)" and "n \<in> set (map ident nodes)"
  shows "\<exists>positions metrics node_layers nodes_by_layer node_orders layer i.
           compute_layout_positions h nodes edges node_spacing layer_separation iterations
             = Inr (positions, metrics, node_layers) \<and>
           order_stage h nodes edges iterations = Inr (node_layers, nodes_by_layer, node_orders) \<and>
           node_layers n = Some layer \<and> node_orders n = Some i \<and>
           positions n =
             Some (start_x_of (int (length (filter (\<lambda>m. node_layers m = Some layer)
                                                     (map ident nodes))))
                     node_spacing + i * node_spacing,
                   layer * layer_separation)"
  using assms by (rule layout_positions)

theorem layout_positions_formula_witness:
  "distinct (map ident (mk_nodes [''a'', ''b''])) \<and>
   ''a'' \<in> set (map ident (mk_nodes [''a'', ''b''])) \<and>
   (\<exists>positions metrics node_layers nodes_by_layer node_orders layer i.
      compute_layout_positions zero_hash (mk_nodes [''a'', ''b'']) (mk_edges []) 250 200 8
        = Inr (positions, metrics, node_layers) \<and>
      order_stage zero_hash (mk_nodes [''a'', ''b'']) (mk_edges []) 8
        = Inr (node_layers, nodes_by_layer, node_orders) \<and>
      node_layers ''a'' = Some layer \<and> node_orders ''a'' = Some i \<and>
      positions ''a'' =
        Some (start_x_of (int (length (filter (\<lambda>m. node_layers m = Some layer)
                                                (map ident (mk_nodes [''a'', ''b'']))))) 250
                + i * 250,
              layer * 200))"
proof -
  have d: "distinct (map ident (mk_nodes [''a'', ''b'']))" by (simp add: mk_nodes_def)
  have n: "''a'' \<in> set (map ident (mk_nodes [''a'', ''b'']))" by (simp add: mk_nodes_def)
  from layout_positions_formula[OF d n, of zero_hash "mk_edges []" 250 200 8] d n
  show ?thesis by blast
qed

text \<open>
  With two nodes in one layer and \<^verbatim>\<open>node_spacing = 1\<close> the width is odd: the code puts the
  first node at \<open>x = floor(-1/2) = -1\<close>, the specification's formula gives
  \<open>-floor(1/2) + 0 = 0\<close>.
\<close>

theorem start_x_counterexample:
  "layout_position
     (compute_layout_positions zero_hash (mk_nodes [''a'', ''b'']) (mk_edges []) 1 200 8) ''a''
     = Some (- 1, 0) \<and>
   (spec_start_x 2 1 + 0 * 1, 0 * (200::int)) = (0, 0)"
proof
  show "layout_position
          (compute_layout_positions zero_hash (mk_nodes [''a'', ''b'']) (mk_edges []) 1 200 8) ''a''
        = Some (- 1, 0)"
    by code_simp
  show "(spec_start_x 2 1 + 0 * 1, 0 * (200::int)) = (0, 0)"
    by (simp add: spec_start_x_def)
qed

section \<open>The layering invariant\<close>

text \<open>
  The invariant of the queue loop, for unique node ids.  A node is dequeued when it is a
  node, its in-degree is 0 and it is not waiting in the queue.  The in-degree of a node counts
  its incoming edges from nodes not yet dequeued, plus the edges of the node in hand that the
  inner loop still has to visit.  Every edge out of a dequeued node, once visited, goes to a
  strictly deeper layer, and the layer of a dequeued node never changes again.
\<close>

definition dequeued :: "string list \<Rightarrow> lstate \<Rightarrow> string \<Rightarrow> bool" where
  "dequeued ids st n = (n \<in> set ids \<and> in_degree st n = 0 \<and> n \<notin> set (queue st))"

definition open_in :: "string list \<Rightarrow> (string \<times> string) list \<Rightarrow> lstate \<Rightarrow> string \<Rightarrow> nat" where
  "open_in ids es st n = length (filter (\<lambda>e. snd e = n \<and> \<not> dequeued ids st (fst e)) es)"

definition edge_ordered :: "lstate \<Rightarrow> string \<times> string \<Rightarrow> bool" where
  "edge_ordered st e =
     (\<exists>lp lc. layers st (fst e) = Some lp \<and> layers st (snd e) = Some lc \<and> lp < lc)"

definition queue_inv ::
  "string list \<Rightarrow> (string \<times> string) list \<Rightarrow> lstate \<Rightarrow> string \<Rightarrow> string list \<Rightarrow> bool" where
  "queue_inv ids es st n cs =
     (distinct (queue st) \<and> set (queue st) \<subseteq> set ids \<and>
      (\<forall>m \<in> set (queue st). in_degree st m = 0 \<and> layers st m \<noteq> None) \<and>
      (\<forall>m. in_degree st m = int (open_in ids es st m) + int (count_list cs m)) \<and>
      (\<forall>e \<in> set es. dequeued ids st (fst e) \<and> \<not> (fst e = n \<and> snd e \<in> set cs) \<longrightarrow>
                      edge_ordered st e))"

lemma visit_child_fields:
  "in_degree (visit_child cur st c) = (in_degree st)(c := in_degree st c - 1)"
  "queue (visit_child cur st c) =
     (if in_degree st c = 1 then queue st @ [c] else queue st)"
  "layers (visit_child cur st c) =
     (layers st)(c \<mapsto> max (case layers st c of None \<Rightarrow> 0 | Some l \<Rightarrow> l) (cur + 1))"
  by (simp_all add: visit_child_def Let_def)

lemma visit_child_dequeued:
  assumes "0 < in_degree st c"
  shows "dequeued ids (visit_child cur st c) m = dequeued ids st m"
proof (cases "m = c")
  case True
  then show ?thesis using assms by (auto simp: dequeued_def visit_child_fields)
next
  case False
  then show ?thesis by (auto simp: dequeued_def visit_child_fields)
qed

lemma visit_child_open_in:
  assumes "0 < in_degree st c"
  shows "open_in ids es (visit_child cur st c) m = open_in ids es st m"
  by (simp add: open_in_def visit_child_dequeued[OF assms])

lemma visit_child_inv:
  assumes inv: "queue_inv ids es st n (c # cs)"
    and dn: "dequeued ids st n" and ln: "layers st n = Some cur" and c: "c \<in> set ids"
  shows "queue_inv ids es (visit_child cur st c) n cs \<and>
         dequeued ids (visit_child cur st c) n \<and> layers (visit_child cur st c) n = Some cur"
proof -
  let ?st = "visit_child cur st c"
  have deg: "\<forall>m. in_degree st m = int (open_in ids es st m) + int (count_list (c # cs) m)"
    using inv by (simp add: queue_inv_def)
  have pos: "0 < in_degree st c" using deg by (simp add: )
  have cn: "c \<noteq> n" using pos dn by (auto simp: dequeued_def)
  have cq: "c \<notin> set (queue st)" using pos inv by (auto simp: queue_inv_def)
  have deq: "\<And>m. dequeued ids ?st m = dequeued ids st m" by (rule visit_child_dequeued[OF pos])
  have opn: "\<And>m. open_in ids es ?st m = open_in ids es st m" by (rule visit_child_open_in[OF pos])
  have ncs: "n \<notin> set cs"
  proof
    assume "n \<in> set cs"
    then have "count_list cs n \<noteq> 0" by (simp add: count_list_0_iff)
    then have "0 < count_list cs n" by simp
    then have "0 < in_degree st n" using deg cn by simp
    then show False using dn by (simp add: dequeued_def)
  qed
  have q1: "distinct (queue ?st)" using inv cq by (simp add: queue_inv_def visit_child_fields)
  have q2: "set (queue ?st) \<subseteq> set ids" using inv c by (auto simp: queue_inv_def visit_child_fields)
  have q3: "\<forall>m \<in> set (queue ?st). in_degree ?st m = 0 \<and> layers ?st m \<noteq> None"
    using inv cq by (auto simp: queue_inv_def visit_child_fields)
  have q4: "\<forall>m. in_degree ?st m = int (open_in ids es ?st m) + int (count_list cs m)"
    using deg by (simp add: opn visit_child_fields)
  have lc: "\<exists>l. layers ?st c = Some l \<and> cur < l"
    by (simp add: visit_child_fields)
  have lo: "\<And>m. m \<noteq> c \<Longrightarrow> layers ?st m = layers st m" by (simp add: visit_child_fields)
  have lmono: "\<And>m l. layers st m = Some l \<Longrightarrow> \<exists>l'. layers ?st m = Some l' \<and> l \<le> l'"
    by (auto simp: visit_child_fields)
  have q5: "\<forall>e \<in> set es. dequeued ids ?st (fst e) \<and> \<not> (fst e = n \<and> snd e \<in> set cs) \<longrightarrow>
              edge_ordered ?st e"
  proof (intro ballI impI)
    fix e assume e: "e \<in> set es" and h: "dequeued ids ?st (fst e) \<and> \<not> (fst e = n \<and> snd e \<in> set cs)"
    then have de: "dequeued ids st (fst e)" using deq by simp
    have pc: "fst e \<noteq> c" using de pos by (auto simp: dequeued_def)
    show "edge_ordered ?st e"
    proof (cases "fst e = n \<and> snd e = c")
      case True
      then show ?thesis using lc lo[OF cn[symmetric]] ln by (auto simp: edge_ordered_def)
    next
      case False
      then have "\<not> (fst e = n \<and> snd e \<in> set (c # cs))" using h by auto
      then have "edge_ordered st e" using inv e de by (simp add: queue_inv_def)
      then obtain lp lch where o: "layers st (fst e) = Some lp" "layers st (snd e) = Some lch" "lp < lch"
        by (auto simp: edge_ordered_def)
      obtain l' where "layers ?st (snd e) = Some l'" "lch \<le> l'" using lmono[OF o(2)] by blast
      then show ?thesis using o lo[OF pc] by (auto simp: edge_ordered_def)
    qed
  qed
  have "dequeued ids ?st n" using dn deq by simp
  moreover have "layers ?st n = Some cur" using ln lo[of n] cn by simp
  ultimately show ?thesis using q1 q2 q3 q4 q5 by (simp add: queue_inv_def)
qed


lemma visit_fold_inv:
  assumes "queue_inv ids es st n cs" "dequeued ids st n" "layers st n = Some cur"
    "set cs \<subseteq> set ids"
  shows "queue_inv ids es (foldl (visit_child cur) st cs) n []"
  using assms
proof (induction cs arbitrary: st)
  case Nil
  then show ?case by simp
next
  case (Cons c cs)
  have c: "c \<in> set ids" and cs: "set cs \<subseteq> set ids" using Cons.prems(4) by auto
  from visit_child_inv[OF Cons.prems(1-3) c]
  have "queue_inv ids es (visit_child cur st c) n cs"
    "dequeued ids (visit_child cur st c) n" "layers (visit_child cur st c) n = Some cur"
    by blast+
  from Cons.IH[OF this cs] show ?case by simp
qed

lemma filter_split_length:
  "length (filter P xs) = length (filter (\<lambda>x. P x \<and> \<not> R x) xs) + length (filter (\<lambda>x. P x \<and> R x) xs)"
  by (induction xs) auto

lemma count_children:
  "count_list (children_of es n) m = length (filter (\<lambda>e. snd e = m \<and> fst e = n) es)"
  by (induction es) (auto simp: children_of_def)

lemma pop_inv:
  assumes inv: "queue_inv ids es st x []" and q: "queue st = n # rest"
  shows "queue_inv ids es (st\<lparr>queue := rest\<rparr>) n (children_of es n) \<and>
         dequeued ids (st\<lparr>queue := rest\<rparr>) n"
proof -
  let ?st = "st\<lparr>queue := rest\<rparr>"
  have nr: "n \<notin> set rest" and dr: "distinct rest" using inv q by (auto simp: queue_inv_def)
  have nid: "n \<in> set ids" and dn0: "in_degree st n = 0" using inv q by (auto simp: queue_inv_def)
  have nd: "\<not> dequeued ids st n" using q by (simp add: dequeued_def)
  have dn: "dequeued ids ?st n" using nr nid dn0 by (simp add: dequeued_def)
  have deq: "\<And>m. dequeued ids ?st m = (dequeued ids st m \<or> m = n)"
    using q nr nid dn0 by (auto simp: dequeued_def)
  have q4: "\<forall>m. in_degree ?st m = int (open_in ids es ?st m) + int (count_list (children_of es n) m)"
  proof
    fix m
    have "open_in ids es st m =
            length (filter (\<lambda>e. (snd e = m \<and> \<not> dequeued ids st (fst e)) \<and> \<not> fst e = n) es) +
            length (filter (\<lambda>e. (snd e = m \<and> \<not> dequeued ids st (fst e)) \<and> fst e = n) es)"
      unfolding open_in_def by (rule filter_split_length)
    moreover have "(\<lambda>e. (snd e = m \<and> \<not> dequeued ids st (fst e)) \<and> \<not> fst e = n)
                   = (\<lambda>e. snd e = m \<and> \<not> dequeued ids ?st (fst e))"
      by (auto simp: deq)
    moreover have "(\<lambda>e. (snd e = m \<and> \<not> dequeued ids st (fst e)) \<and> fst e = n)
                   = (\<lambda>e. snd e = m \<and> fst e = n)"
      using nd by auto
    ultimately have "open_in ids es st m = open_in ids es ?st m + count_list (children_of es n) m"
      by (simp add: open_in_def count_children)
    moreover have "in_degree st m = int (open_in ids es st m)"
      using inv by (simp add: queue_inv_def)
    ultimately show "in_degree ?st m = int (open_in ids es ?st m) + int (count_list (children_of es n) m)"
      by simp
  qed
  have q5: "\<forall>e \<in> set es. dequeued ids ?st (fst e) \<and> \<not> (fst e = n \<and> snd e \<in> set (children_of es n)) \<longrightarrow>
              edge_ordered ?st e"
  proof (intro ballI impI)
    fix e assume e: "e \<in> set es"
      and h: "dequeued ids ?st (fst e) \<and> \<not> (fst e = n \<and> snd e \<in> set (children_of es n))"
    have "fst e = n \<Longrightarrow> snd e \<in> set (children_of es n)" using e by (auto simp: children_of_def)
    then have "fst e \<noteq> n" using h by blast
    then have "dequeued ids st (fst e)" using h deq by simp
    then have "edge_ordered st e" using inv e by (simp add: queue_inv_def)
    then show "edge_ordered ?st e" by (simp add: edge_ordered_def)
  qed
  have "distinct (queue ?st)" "set (queue ?st) \<subseteq> set ids"
    "\<forall>m \<in> set (queue ?st). in_degree ?st m = 0 \<and> layers ?st m \<noteq> None"
    using inv q by (auto simp: queue_inv_def)
  then show ?thesis using q4 q5 dn by (simp add: queue_inv_def)
qed

lemma process_queue_inv:
  assumes "queue_inv ids es st x []" "snd ` set es \<subseteq> set ids"
  shows "\<exists>st' y. process_queue es st = Inr st' \<and> queue_inv ids es st' y [] \<and> queue st' = []"
  using assms
proof (induction es st arbitrary: x rule: process_queue.induct)
  case (1 es st)
  show ?case
  proof (cases "queue st")
    case Nil
    then have "process_queue es st = Inr st" by (subst process_queue.simps) simp
    then show ?thesis using Nil "1.prems"(1) by blast
  next
    case (Cons n rest)
    then obtain cur where cur: "layers st n = Some cur"
      using "1.prems"(1) by (auto simp: queue_inv_def)
    let ?st = "st\<lparr>queue := rest\<rparr>"
    from pop_inv[OF "1.prems"(1) Cons]
    have p: "queue_inv ids es ?st n (children_of es n)" "dequeued ids ?st n" by blast+
    have l: "layers ?st n = Some cur" using cur by simp
    have cs: "set (children_of es n) \<subseteq> set ids"
      using children_of_subset[of es n] "1.prems"(2) by blast
    have "queue_inv ids es (process_node es ?st n cur) n []"
      unfolding process_node_def by (rule visit_fold_inv[OF p l cs])
    from "1.IH"[OF Cons cur this "1.prems"(2)] obtain st' y where
      "process_queue es (process_node es ?st n cur) = Inr st'" "queue_inv ids es st' y []"
      "queue st' = []" by blast
    moreover have "process_queue es st = process_queue es (process_node es ?st n cur)"
      using Cons cur by (subst process_queue.simps) simp
    ultimately show ?thesis by auto
  qed
qed


lemma seed_fold_in_degree: "in_degree (foldl seed st ids) = in_degree st"
  by (induction ids arbitrary: st) (simp_all add: seed_def)

lemma seed_fold_queue:
  "queue (foldl seed st ids) = queue st @ filter (\<lambda>n. in_degree st n = 0) ids"
proof (induction ids arbitrary: st)
  case Nil
  then show ?case by simp
next
  case (Cons a ids)
  have "in_degree (seed st a) = in_degree st" by (simp add: seed_def)
  then show ?case using Cons[of "seed st a"] by (simp add: seed_def)
qed

lemma seed_fold_layers:
  "layers (foldl seed st ids) n =
     (if n \<in> set ids \<and> in_degree st n = 0 then Some 0 else layers st n)"
proof (induction ids arbitrary: st)
  case Nil
  then show ?case by simp
next
  case (Cons a ids)
  have "in_degree (seed st a) = in_degree st" by (simp add: seed_def)
  then show ?case using Cons[of "seed st a"] by (auto simp: seed_def)
qed

lemma initial_state_fields:
  "in_degree (initial_state ids es) = in_degree_of es"
  "queue (initial_state ids es) = filter (\<lambda>n. in_degree_of es n = 0) ids"
  "layers (initial_state ids es) n =
     (if n \<in> set ids \<and> in_degree_of es n = 0 then Some 0 else None)"
  by (simp_all add: initial_state_def seed_fold_in_degree seed_fold_queue seed_fold_layers)

lemma length_parents_of:
  "length (parents_of es m) = length (filter (\<lambda>e. snd e = m) es)"
  by (induction es) (auto simp: parents_of_def)

lemma initial_state_inv:
  assumes "distinct ids"
  shows "queue_inv ids es (initial_state ids es) x []"
proof -
  let ?st = "initial_state ids es"
  have nd: "\<And>m. \<not> dequeued ids ?st m"
    by (auto simp: dequeued_def initial_state_fields)
  have "\<And>m. open_in ids es ?st m = length (parents_of es m)"
    by (simp add: open_in_def nd length_parents_of)
  then have "\<forall>m. in_degree ?st m = int (open_in ids es ?st m) + int (count_list [] m)"
    by (simp add: initial_state_fields in_degree_of_def)
  moreover have "distinct (queue ?st)" "set (queue ?st) \<subseteq> set ids"
    using assms by (auto simp: initial_state_fields)
  moreover have "\<forall>m \<in> set (queue ?st). in_degree ?st m = 0 \<and> layers ?st m \<noteq> None"
    by (auto simp: initial_state_fields)
  ultimately show ?thesis using nd by (simp add: queue_inv_def)
qed

lemma included_edges_endpoints:
  "fst ` set (included_edges S edges) \<subseteq> S" "snd ` set (included_edges S edges) \<subseteq> S"
  by (auto simp: included_edges_def)

lemma included_edges_member:
  "e \<in> set edges \<Longrightarrow> source e \<in> S \<Longrightarrow> target e \<in> S \<Longrightarrow>
   (source e, target e) \<in> set (included_edges S edges)"
  by (auto simp: included_edges_def)

lemma run_queue_inv:
  assumes "distinct ids" "snd ` set es \<subseteq> set ids"
  shows "\<exists>st y. run_queue ids es = Inr st \<and> queue_inv ids es st y [] \<and> queue st = []"
  unfolding run_queue_def
  by (rule process_queue_inv[OF initial_state_inv[OF assms(1)] assms(2)])

text \<open>
  A node is resolved when the queue loop has taken it out of the queue: its in-degree has
  come down to 0.  The other nodes are the ones the loop never reaches, on a cycle or
  behind one.
\<close>

definition resolved :: "'a node_scheme list \<Rightarrow> 'b edge_scheme list \<Rightarrow> string \<Rightarrow> bool" where
  "resolved nodes edges n =
     (case run_queue (map ident nodes) (included_edges (set (map ident nodes)) edges) of
        Inl e \<Rightarrow> False
      | Inr st \<Rightarrow> n \<in> set (map ident nodes) \<and> in_degree st n = 0)"

lemma resolved_edge_ordered:
  assumes d: "distinct (map ident nodes)"
    and e: "e \<in> set edges" "source e \<in> set (map ident nodes)" "target e \<in> set (map ident nodes)"
    and r: "resolved nodes edges (source e)"
  shows "\<exists>node_layers lu lv. assign_layers nodes edges = Inr node_layers \<and>
           node_layers (source e) = Some lu \<and> node_layers (target e) = Some lv \<and> lu < lv"
proof -
  let ?ids = "map ident nodes"
  let ?es = "included_edges (set ?ids) edges"
  from run_queue_inv[OF d included_edges_endpoints(2)] obtain st y where
    rq: "run_queue ?ids ?es = Inr st" and inv: "queue_inv ?ids ?es st y []" and q: "queue st = []"
    by blast
  have "dequeued ?ids st (source e)" using r rq q by (simp add: resolved_def dequeued_def)
  moreover have "(source e, target e) \<in> set ?es" using e by (rule included_edges_member)
  ultimately have "edge_ordered st (source e, target e)"
    using inv unfolding queue_inv_def by fastforce
  then obtain lu lv where l: "layers st (source e) = Some lu" "layers st (target e) = Some lv" "lu < lv"
    by (auto simp: edge_ordered_def)
  have "assign_layers nodes edges = Inr (foldl default_layer (layers st) ?ids)"
    using rq by (simp add: assign_layers_def Let_def)
  then show ?thesis using l default_layers_keep by blast
qed

lemma acyclic_all_resolved:
  assumes d: "distinct (map ident nodes)"
    and a: "acyclic (set (included_edges (set (map ident nodes)) edges))"
    and n: "n \<in> set (map ident nodes)"
  shows "resolved nodes edges n"
proof -
  let ?ids = "map ident nodes"
  let ?es = "included_edges (set ?ids) edges"
  from run_queue_inv[OF d included_edges_endpoints(2)] obtain st y where
    rq: "run_queue ?ids ?es = Inr st" and inv: "queue_inv ?ids ?es st y []" and q: "queue st = []"
    by blast
  have wf: "wf (set ?es)" using a by (simp add: finite_acyclic_wf)
  have deg: "\<And>m. in_degree st m = int (open_in ?ids ?es st m)"
    using inv by (simp add: queue_inv_def)
  have "in_degree st m = 0" for m
  proof (induction m rule: wf_induct_rule[OF wf])
    case (1 m)
    have "filter (\<lambda>e. snd e = m \<and> \<not> dequeued ?ids st (fst e)) ?es = []"
    proof (rule filter_False, intro ballI)
      fix e assume e: "e \<in> set ?es"
      show "\<not> (snd e = m \<and> \<not> dequeued ?ids st (fst e))"
      proof
        assume h: "snd e = m \<and> \<not> dequeued ?ids st (fst e)"
        then have "(fst e, m) \<in> set ?es" using e by (metis prod.collapse)
        then have "in_degree st (fst e) = 0" by (rule "1.IH")
        moreover have "fst e \<in> set ?ids" using e included_edges_endpoints(1) by blast
        ultimately have "dequeued ?ids st (fst e)" using q by (simp add: dequeued_def)
        then show False using h by simp
      qed
    qed
    then show ?case using deg[of m] by (simp add: open_in_def)
  qed
  then show ?thesis using rq n by (simp add: resolved_def)
qed

section \<open>Where a layer comes from\<close>

text \<open>
  A second invariant of the queue loop: a layer is never negative, and a node in a layer
  \<open>l > 0\<close> has a parent that was dequeued in layer \<open>l - 1\<close>.  With the ordering of the
  edges this fixes the layer of a node: it is one more than the largest layer among its
  dequeued parents, and 0 if it has none.
\<close>

definition layer_witness :: "string list \<Rightarrow> (string \<times> string) list \<Rightarrow> lstate \<Rightarrow> bool" where
  "layer_witness ids es st =
     (\<forall>c l. layers st c = Some l \<longrightarrow>
        0 \<le> l \<and>
        (l = 0 \<or> (\<exists>e \<in> set es. snd e = c \<and> dequeued ids st (fst e) \<and>
                                 layers st (fst e) = Some (l - 1))))"

lemma visit_child_witness:
  assumes inv: "queue_inv ids es st n (c # cs)"
    and dn: "dequeued ids st n" and ln: "layers st n = Some cur"
    and e: "(n, c) \<in> set es" and w: "layer_witness ids es st"
  shows "layer_witness ids es (visit_child cur st c)"
proof -
  let ?st = "visit_child cur st c"
  have deg: "\<forall>m. in_degree st m = int (open_in ids es st m) + int (count_list (c # cs) m)"
    using inv by (simp add: queue_inv_def)
  have pos: "0 < in_degree st c" using deg by simp
  have cn: "c \<noteq> n" using pos dn by (auto simp: dequeued_def)
  have deq: "\<And>m. dequeued ids ?st m = dequeued ids st m" by (rule visit_child_dequeued[OF pos])
  have ndc: "\<And>p. dequeued ids st p \<Longrightarrow> p \<noteq> c" using pos by (auto simp: dequeued_def)
  have lo: "\<And>m. m \<noteq> c \<Longrightarrow> layers ?st m = layers st m" by (simp add: visit_child_fields)
  have cur0: "0 \<le> cur" using w ln by (simp add: layer_witness_def)
  have keep: "\<exists>e \<in> set es. snd e = m \<and> dequeued ids ?st (fst e) \<and> layers ?st (fst e) = Some (l - 1)"
    if "\<exists>e \<in> set es. snd e = m \<and> dequeued ids st (fst e) \<and> layers st (fst e) = Some (l - 1)"
    for m l
  proof -
    from that obtain e where e: "e \<in> set es" "snd e = m" "dequeued ids st (fst e)"
      "layers st (fst e) = Some (l - 1)" by blast
    then have "layers ?st (fst e) = Some (l - 1)" using lo[OF ndc] by simp
    then show ?thesis using e deq by blast
  qed
  show ?thesis unfolding layer_witness_def
  proof (intro allI impI)
    fix m l assume ml: "layers ?st m = Some l"
    show "0 \<le> l \<and> (l = 0 \<or> (\<exists>e \<in> set es. snd e = m \<and> dequeued ids ?st (fst e) \<and>
                                      layers ?st (fst e) = Some (l - 1)))"
    proof (cases "m = c")
      case False
      then have "layers st m = Some l" using ml lo by simp
      then have "0 \<le> l \<and> (l = 0 \<or> (\<exists>e \<in> set es. snd e = m \<and> dequeued ids st (fst e) \<and>
                                      layers st (fst e) = Some (l - 1)))"
        using w by (simp add: layer_witness_def)
      then show ?thesis using keep by blast
    next
      case True
      let ?old = "case layers st c of None \<Rightarrow> 0 | Some x \<Rightarrow> x"
      have l: "l = max ?old (cur + 1)" using ml True by (simp add: visit_child_fields)
      show ?thesis
      proof (cases "l = cur + 1")
        case True
        have "layers ?st n = Some (l - 1)" using lo[of n] cn ln True by simp
        moreover have "dequeued ids ?st n" using dn deq by simp
        ultimately have "\<exists>e \<in> set es. snd e = m \<and> dequeued ids ?st (fst e) \<and>
                           layers ?st (fst e) = Some (l - 1)"
          using e \<open>m = c\<close> by force
        then show ?thesis using True cur0 by simp
      next
        case False
        then have lo1: "l = ?old" "cur + 1 < l" using l by (auto simp: max_def split: if_splits)
        then have "layers st c = Some l" using cur0 by (cases "layers st c") auto
        then have "0 \<le> l \<and> (l = 0 \<or> (\<exists>e \<in> set es. snd e = c \<and> dequeued ids st (fst e) \<and>
                                      layers st (fst e) = Some (l - 1)))"
          using w by (simp add: layer_witness_def)
        then show ?thesis using keep \<open>m = c\<close> by blast
      qed
    qed
  qed
qed

lemma visit_fold_witness:
  assumes "queue_inv ids es st n cs" "dequeued ids st n" "layers st n = Some cur"
    "set cs \<subseteq> set ids" "\<forall>c \<in> set cs. (n, c) \<in> set es" "layer_witness ids es st"
  shows "layer_witness ids es (foldl (visit_child cur) st cs)"
  using assms
proof (induction cs arbitrary: st)
  case Nil
  then show ?case by simp
next
  case (Cons c cs)
  have c: "c \<in> set ids" and cs: "set cs \<subseteq> set ids" using Cons.prems(4) by auto
  have e: "(n, c) \<in> set es" and es: "\<forall>c \<in> set cs. (n, c) \<in> set es" using Cons.prems(5) by auto
  from visit_child_inv[OF Cons.prems(1-3) c]
  have i: "queue_inv ids es (visit_child cur st c) n cs"
    "dequeued ids (visit_child cur st c) n" "layers (visit_child cur st c) n = Some cur"
    by blast+
  have w: "layer_witness ids es (visit_child cur st c)"
    by (rule visit_child_witness[OF Cons.prems(1-3) e Cons.prems(6)])
  from Cons.IH[OF i cs es w] show ?case by simp
qed

lemma pop_witness:
  assumes "layer_witness ids es st" "queue st = n # rest"
  shows "layer_witness ids es (st\<lparr>queue := rest\<rparr>)"
proof -
  have "\<And>p. dequeued ids st p \<Longrightarrow> dequeued ids (st\<lparr>queue := rest\<rparr>) p"
    using assms(2) by (auto simp: dequeued_def)
  then show ?thesis using assms(1) unfolding layer_witness_def by (simp, blast)
qed

lemma children_of_edge: "c \<in> set (children_of es n) \<Longrightarrow> (n, c) \<in> set es"
  by (induction es) (auto simp: children_of_def split: if_splits)

lemma process_queue_full:
  assumes "queue_inv ids es st x []" "layer_witness ids es st" "snd ` set es \<subseteq> set ids"
  shows "\<exists>st' y. process_queue es st = Inr st' \<and> queue_inv ids es st' y [] \<and> queue st' = [] \<and>
                 layer_witness ids es st'"
  using assms
proof (induction es st arbitrary: x rule: process_queue.induct)
  case (1 es st)
  show ?case
  proof (cases "queue st")
    case Nil
    then have "process_queue es st = Inr st" by (subst process_queue.simps) simp
    then show ?thesis using Nil "1.prems"(1,2) by blast
  next
    case (Cons n rest)
    then obtain cur where cur: "layers st n = Some cur"
      using "1.prems"(1) by (auto simp: queue_inv_def)
    let ?st = "st\<lparr>queue := rest\<rparr>"
    from pop_inv[OF "1.prems"(1) Cons]
    have p: "queue_inv ids es ?st n (children_of es n)" "dequeued ids ?st n" by blast+
    have l: "layers ?st n = Some cur" using cur by simp
    have cs: "set (children_of es n) \<subseteq> set ids"
      using children_of_subset[of es n] "1.prems"(3) by blast
    have ce: "\<forall>c \<in> set (children_of es n). (n, c) \<in> set es" using children_of_edge by blast
    have w: "layer_witness ids es ?st" by (rule pop_witness[OF "1.prems"(2) Cons])
    have i: "queue_inv ids es (process_node es ?st n cur) n []"
      unfolding process_node_def by (rule visit_fold_inv[OF p l cs])
    have w': "layer_witness ids es (process_node es ?st n cur)"
      unfolding process_node_def by (rule visit_fold_witness[OF p l cs ce w])
    from "1.IH"[OF Cons cur i w' "1.prems"(3)] obtain st' y where
      "process_queue es (process_node es ?st n cur) = Inr st'" "queue_inv ids es st' y []"
      "queue st' = []" "layer_witness ids es st'" by blast
    moreover have "process_queue es st = process_queue es (process_node es ?st n cur)"
      using Cons cur by (subst process_queue.simps) simp
    ultimately show ?thesis by auto
  qed
qed

lemma initial_state_witness: "layer_witness ids es (initial_state ids es)"
  by (auto simp: layer_witness_def initial_state_fields split: if_splits)

lemma run_queue_full:
  assumes "distinct ids" "snd ` set es \<subseteq> set ids"
  shows "\<exists>st y. run_queue ids es = Inr st \<and> queue_inv ids es st y [] \<and> queue st = [] \<and>
                layer_witness ids es st"
  unfolding run_queue_def
  by (rule process_queue_full[OF initial_state_inv[OF assms(1)] initial_state_witness assms(2)])

text \<open>
  What the two invariants say of the returned layer map \<open>Lf\<close> and of the set \<open>R\<close> of
  resolved nodes, over the set \<open>r\<close> of the edges between listed nodes.
\<close>

definition layering_facts ::
  "string set \<Rightarrow> (string \<times> string) set \<Rightarrow> (string \<Rightarrow> bool) \<Rightarrow> (string \<Rightarrow> int) \<Rightarrow> bool" where
  "layering_facts ids r R Lf =
     ((\<forall>n. R n \<longleftrightarrow> n \<in> ids \<and> (\<forall>p. (p, n) \<in> r \<longrightarrow> R p)) \<and>
      (\<forall>p c. (p, c) \<in> r \<longrightarrow> R p \<longrightarrow> Lf p < Lf c) \<and>
      (\<forall>n \<in> ids. 0 \<le> Lf n \<and> (Lf n = 0 \<or> (\<exists>p. (p, n) \<in> r \<and> R p \<and> Lf p = Lf n - 1))))"

lemma assign_layers_facts:
  assumes d: "distinct (map ident nodes)"
  shows "\<exists>L. assign_layers nodes edges = Inr L \<and> set (map ident nodes) \<subseteq> dom L \<and>
             layering_facts (set (map ident nodes))
               (set (included_edges (set (map ident nodes)) edges))
               (resolved nodes edges) (\<lambda>n. the (L n))"
proof -
  let ?ids = "map ident nodes"
  let ?es = "included_edges (set ?ids) edges"
  from run_queue_full[OF d included_edges_endpoints(2)] obtain st y where
    rq: "run_queue ?ids ?es = Inr st" and inv: "queue_inv ?ids ?es st y []" and q: "queue st = []"
    and w: "layer_witness ?ids ?es st" by blast
  let ?L = "foldl default_layer (layers st) ?ids"
  have al: "assign_layers nodes edges = Inr ?L" using rq by (simp add: assign_layers_def Let_def)
  have dom: "set ?ids \<subseteq> dom ?L" by (simp add: dom_default_layers)
  have R: "\<And>n. resolved nodes edges n = dequeued ?ids st n"
    using rq q by (simp add: resolved_def dequeued_def)
  have deg: "\<And>m. in_degree st m = int (open_in ?ids ?es st m)"
    using inv by (simp add: queue_inv_def)
  have f3: "resolved nodes edges n \<longleftrightarrow>
              n \<in> set ?ids \<and> (\<forall>p. (p, n) \<in> set ?es \<longrightarrow> resolved nodes edges p)" for n
  proof -
    have "in_degree st n = 0 \<longleftrightarrow> (\<forall>e \<in> set ?es. \<not> (snd e = n \<and> \<not> dequeued ?ids st (fst e)))"
      using deg[of n] by (simp add: open_in_def filter_empty_conv)
    also have "\<dots> \<longleftrightarrow> (\<forall>p. (p, n) \<in> set ?es \<longrightarrow> dequeued ?ids st p)" by force
    finally show ?thesis using R q by (auto simp: dequeued_def)
  qed
  have f1: "the (?L p) < the (?L c)" if "(p, c) \<in> set ?es" "resolved nodes edges p" for p c
  proof -
    have "edge_ordered st (p, c)" using inv that R unfolding queue_inv_def by fastforce
    then obtain lp lc where "layers st p = Some lp" "layers st c = Some lc" "lp < lc"
      by (auto simp: edge_ordered_def)
    then show ?thesis using default_layers_keep[of "layers st"] by simp
  qed
  have f2: "0 \<le> the (?L n) \<and> (the (?L n) = 0 \<or>
              (\<exists>p. (p, n) \<in> set ?es \<and> resolved nodes edges p \<and> the (?L p) = the (?L n) - 1))"
    if n: "n \<in> set ?ids" for n
  proof (cases "layers st n")
    case None
    then have "?L n = Some 0" using n by (rule default_layers_new)
    then show ?thesis by simp
  next
    case (Some l)
    then have ln: "?L n = Some l" by (rule default_layers_keep)
    have "0 \<le> l \<and> (l = 0 \<or> (\<exists>e \<in> set ?es. snd e = n \<and> dequeued ?ids st (fst e) \<and>
                                   layers st (fst e) = Some (l - 1)))"
      using w Some by (simp add: layer_witness_def)
    then show ?thesis
    proof (elim conjE disjE)
      assume "0 \<le> l" "l = 0"
      then show ?thesis using ln by simp
    next
      assume l0: "0 \<le> l"
        and "\<exists>e \<in> set ?es. snd e = n \<and> dequeued ?ids st (fst e) \<and> layers st (fst e) = Some (l - 1)"
      then obtain e where e: "e \<in> set ?es" "snd e = n" "dequeued ?ids st (fst e)"
        "layers st (fst e) = Some (l - 1)" by blast
      have "?L (fst e) = Some (l - 1)" using e(4) by (rule default_layers_keep)
      moreover have "(fst e, n) \<in> set ?es" using e(1,2) by (metis prod.collapse)
      ultimately have "\<exists>p. (p, n) \<in> set ?es \<and> resolved nodes edges p \<and> the (?L p) = the (?L n) - 1"
        using e(3) R ln by (intro exI[of _ "fst e"]) simp
      then show ?thesis using l0 ln by simp
    qed
  qed
  have "layering_facts (set ?ids) (set ?es) (resolved nodes edges) (\<lambda>n. the (?L n))"
    unfolding layering_facts_def using f3 f1 f2 by blast
  then show ?thesis using al dom by blast
qed

lemma frame_resolved:
  assumes f: "layering_facts ids r R Lf" and f': "layering_facts ids r' R' Lf'"
    and same: "\<forall>n \<in> U. \<forall>p. (p, n) \<in> r \<longleftrightarrow> (p, n) \<in> r'"
    and closed: "\<forall>n \<in> U. \<forall>p. (p, n) \<in> r \<longrightarrow> p \<in> U"
  shows "n \<in> U \<Longrightarrow> R n \<Longrightarrow> R' n"
proof (induction "nat (Lf n)" arbitrary: n rule: less_induct)
  case less
  have nid: "n \<in> ids" and par: "\<forall>p. (p, n) \<in> r \<longrightarrow> R p"
    using f less.prems(2) unfolding layering_facts_def by blast+
  have "R' p" if "(p, n) \<in> r'" for p
  proof -
    have pr: "(p, n) \<in> r" using same less.prems(1) that by blast
    then have Rp: "R p" using par by blast
    then have "p \<in> ids" using f unfolding layering_facts_def by blast
    then have "0 \<le> Lf p" using f unfolding layering_facts_def by blast
    moreover have "Lf p < Lf n" using f pr Rp unfolding layering_facts_def by blast
    ultimately have "nat (Lf p) < nat (Lf n)" by simp
    moreover have "p \<in> U" using closed less.prems(1) pr by blast
    ultimately show ?thesis using less.hyps Rp by blast
  qed
  then show ?case using f' nid unfolding layering_facts_def by blast
qed

lemma frame_layer_le:
  assumes f: "layering_facts ids r R Lf" and f': "layering_facts ids r' R' Lf'"
    and same: "\<forall>n \<in> U. \<forall>p. (p, n) \<in> r \<longleftrightarrow> (p, n) \<in> r'"
    and closed: "\<forall>n \<in> U. \<forall>p. (p, n) \<in> r \<longrightarrow> p \<in> U"
  shows "n \<in> U \<Longrightarrow> n \<in> ids \<Longrightarrow> Lf' n \<le> Lf n"
proof (induction "nat (Lf' n)" arbitrary: n rule: less_induct)
  case less
  have same': "\<forall>n \<in> U. \<forall>p. (p, n) \<in> r' \<longleftrightarrow> (p, n) \<in> r" using same by blast
  have closed': "\<forall>n \<in> U. \<forall>p. (p, n) \<in> r' \<longrightarrow> p \<in> U" using same closed by blast
  have n0: "0 \<le> Lf n" using f less.prems(2) unfolding layering_facts_def by blast
  have "0 \<le> Lf' n \<and> (Lf' n = 0 \<or> (\<exists>p. (p, n) \<in> r' \<and> R' p \<and> Lf' p = Lf' n - 1))"
    using f' less.prems(2) unfolding layering_facts_def by blast
  then show ?case
  proof (elim conjE disjE)
    assume "Lf' n = 0"
    then show ?thesis using n0 by simp
  next
    assume l0: "0 \<le> Lf' n" and "\<exists>p. (p, n) \<in> r' \<and> R' p \<and> Lf' p = Lf' n - 1"
    then obtain p where p: "(p, n) \<in> r'" "R' p" "Lf' p = Lf' n - 1" by blast
    have pr: "(p, n) \<in> r" using same less.prems(1) p(1) by blast
    have pU: "p \<in> U" using closed less.prems(1) pr by blast
    have pid: "p \<in> ids" using f' p(2) unfolding layering_facts_def by blast
    have Rp: "R p" using frame_resolved[OF f' f same' closed' pU p(2)] .
    have "0 \<le> Lf' p" using f' pid unfolding layering_facts_def by blast
    then have "nat (Lf' p) < nat (Lf' n)" using p(3) by simp
    then have "Lf' p \<le> Lf p" using less.hyps pU pid by blast
    moreover have "Lf p < Lf n" using f pr Rp unfolding layering_facts_def by blast
    ultimately show ?thesis using p(3) by simp
  qed
qed

lemma frame_layer_eq:
  assumes f: "layering_facts ids r R Lf" and f': "layering_facts ids r' R' Lf'"
    and same: "\<forall>n \<in> U. \<forall>p. (p, n) \<in> r \<longleftrightarrow> (p, n) \<in> r'"
    and closed: "\<forall>n \<in> U. \<forall>p. (p, n) \<in> r \<longrightarrow> p \<in> U"
    and n: "n \<in> U" "n \<in> ids"
  shows "Lf' n = Lf n"
proof -
  have same': "\<forall>n \<in> U. \<forall>p. (p, n) \<in> r' \<longleftrightarrow> (p, n) \<in> r" using same by blast
  have closed': "\<forall>n \<in> U. \<forall>p. (p, n) \<in> r' \<longrightarrow> p \<in> U" using same closed by blast
  have "Lf' n \<le> Lf n" by (rule frame_layer_le[OF f f' same closed n])
  moreover have "Lf n \<le> Lf' n" by (rule frame_layer_le[OF f' f same' closed' n])
  ultimately show ?thesis by simp
qed

lemma facts_resolved:
  assumes f: "layering_facts ids r R Lf" and fin: "finite r" and src: "fst ` r \<subseteq> ids"
    and n: "n \<in> ids" and nc: "\<forall>c. (c, c) \<in> r\<^sup>+ \<longrightarrow> (c, n) \<notin> r\<^sup>*"
  shows "R n"
proof -
  let ?A = "{x. (x, n) \<in> r\<^sup>*}"
  let ?rA = "r \<inter> (?A \<times> ?A)"
  have "acyclic ?rA"
  proof (rule acyclicI, intro allI notI)
    fix x assume x: "(x, x) \<in> ?rA\<^sup>+"
    have "?rA\<^sup>+ \<subseteq> r\<^sup>+" by (rule trancl_mono_subset) simp
    then have xr: "(x, x) \<in> r\<^sup>+" using x by blast
    have "?rA\<^sup>+ \<subseteq> ?A \<times> ?A" by (rule trancl_subset_Sigma) simp
    then have "(x, n) \<in> r\<^sup>*" using x by blast
    then show False using nc xr by blast
  qed
  moreover have "finite ?rA" using fin by simp
  ultimately have wf: "wf ?rA" by (rule finite_acyclic_wf[rotated])
  have "m \<in> ?A \<longrightarrow> m \<in> ids \<longrightarrow> R m" for m
  proof (induction m rule: wf_induct_rule[OF wf])
    case (1 m)
    show ?case
    proof (intro impI)
      assume mA: "m \<in> ?A" and mid: "m \<in> ids"
      have "R p" if "(p, m) \<in> r" for p
      proof -
        have pA: "p \<in> ?A" using that mA by (auto intro: converse_rtrancl_into_rtrancl)
        have "p \<in> ids" using src that by force
        moreover have "(p, m) \<in> ?rA" using that pA mA by simp
        ultimately show ?thesis using "1.IH" pA by blast
      qed
      then show "R m" using f mid unfolding layering_facts_def by blast
    qed
  qed
  then show ?thesis using n by simp
qed

lemma no_cycle_behind_resolved:
  assumes d: "distinct (map ident nodes)" and n: "n \<in> set (map ident nodes)"
    and nc: "\<forall>c. (c, c) \<in> (set (included_edges (set (map ident nodes)) edges))\<^sup>+ \<longrightarrow>
                 (c, n) \<notin> (set (included_edges (set (map ident nodes)) edges))\<^sup>*"
  shows "resolved nodes edges n"
proof -
  from assign_layers_facts[OF d, of edges] obtain L where
    f: "layering_facts (set (map ident nodes))
          (set (included_edges (set (map ident nodes)) edges))
          (resolved nodes edges) (\<lambda>n. the (L n))" by blast
  show ?thesis
    by (rule facts_resolved[OF f _ included_edges_endpoints(1) n nc]) simp
qed

text \<open>
  A self-loop on a listed node is one more edge between listed nodes: the parents of every
  other node stay what they were.
\<close>

lemma included_edges_self_loop:
  assumes "source loop = a" "target loop = a" "a \<in> S"
  shows "set (included_edges S (edges1 @ loop # edges2)) =
         insert (a, a) (set (included_edges S (edges1 @ edges2)))"
  using assms by (auto simp: included_edges_def)

lemma self_loop_layers:
  assumes d: "distinct (map ident nodes)" and a: "a \<in> set (map ident nodes)"
    and s: "source loop = a" and t: "target loop = a"
    and L: "assign_layers nodes (edges1 @ loop # edges2) = Inr node_layers"
    and L0: "assign_layers nodes (edges1 @ edges2) = Inr node_layers0"
    and n: "n \<in> set (map ident nodes)"
    and u: "(a, n) \<notin> (set (included_edges (set (map ident nodes)) (edges1 @ edges2)))\<^sup>*"
  shows "node_layers n = node_layers0 n"
proof -
  let ?ids = "set (map ident nodes)"
  let ?r = "set (included_edges ?ids (edges1 @ edges2))"
  let ?r' = "set (included_edges ?ids (edges1 @ loop # edges2))"
  let ?U = "{m. (a, m) \<notin> ?r\<^sup>*}"
  from assign_layers_facts[OF d, of "edges1 @ edges2"] L0 have
    dom0: "?ids \<subseteq> dom node_layers0" and
    f0: "layering_facts ?ids ?r (resolved nodes (edges1 @ edges2)) (\<lambda>n. the (node_layers0 n))"
    by auto
  from assign_layers_facts[OF d, of "edges1 @ loop # edges2"] L have
    dom1: "?ids \<subseteq> dom node_layers" and
    f1: "layering_facts ?ids ?r' (resolved nodes (edges1 @ loop # edges2))
           (\<lambda>n. the (node_layers n))"
    by auto
  have r': "?r' = insert (a, a) ?r" by (rule included_edges_self_loop[OF s t a])
  have same: "\<forall>m \<in> ?U. \<forall>p. (p, m) \<in> ?r \<longleftrightarrow> (p, m) \<in> ?r'"
    unfolding r' by auto
  have closed: "\<forall>m \<in> ?U. \<forall>p. (p, m) \<in> ?r \<longrightarrow> p \<in> ?U"
    by (auto intro: rtrancl_into_rtrancl)
  have nU: "n \<in> ?U" using u by simp
  have "the (node_layers n) = the (node_layers0 n)"
    by (rule frame_layer_eq[OF f0 f1 same closed nU n])
  moreover obtain l where "node_layers n = Some l" using dom1 n by blast
  moreover obtain l0 where "node_layers0 n = Some l0" using dom0 n by blast
  ultimately show ?thesis by simp
qed

section \<open>The call never raises\<close>

lemma dom_reorder_layer: "dom m \<subseteq> dom (reorder_layer h nb adj ns m)"
  by (simp add: reorder_layer_def Let_def dom_assign_enum)

lemma dom_top_down_step: "dom m \<subseteq> dom (top_down_step h nbl parents lns m i)"
  using dom_reorder_layer by (simp add: top_down_step_def Let_def)

lemma dom_bottom_up_step: "dom m \<subseteq> dom (bottom_up_step h nbl children lns m i)"
  using dom_reorder_layer by (simp add: bottom_up_step_def Let_def)

lemma dom_sweep:
  assumes "A \<subseteq> dom m"
  shows "A \<subseteq> dom (sweep h nbl children parents lns m)"
  unfolding sweep_def top_down_def bottom_up_def
proof (intro foldl_preserves[where P = "\<lambda>m. A \<subseteq> dom m"] assms)
  fix s :: "string \<rightharpoonup> int" and x :: nat
  assume "A \<subseteq> dom s"
  then show "A \<subseteq> dom (top_down_step h nbl parents lns s x)"
    using dom_top_down_step by blast
next
  fix s :: "string \<rightharpoonup> int" and x :: nat
  assume "A \<subseteq> dom s"
  then show "A \<subseteq> dom (bottom_up_step h nbl children lns s x)"
    using dom_bottom_up_step by blast
qed

lemma dom_init_fold:
  "dom (foldl (\<lambda>m (layer, node_list). assign_enum m (sort node_list)) m nbl) =
   dom m \<union> set (concat (map snd nbl))"
proof (induction nbl arbitrary: m)
  case Nil
  then show ?case by simp
next
  case (Cons p nbl)
  obtain l ns where p: "p = (l, ns)" by (cases p)
  have "dom (assign_enum m (sort ns)) = dom m \<union> set ns" by (simp add: dom_assign_enum)
  then show ?case using Cons[of "assign_enum m (sort ns)"] p by (simp add: Un_assoc)
qed

lemma dom_init_orders: "dom (init_orders nbl) = set (concat (map snd nbl))"
  by (simp add: init_orders_def dom_init_fold)

lemma dom_barycenter_ordering:
  "set (concat (map snd nbl)) \<subseteq> dom (barycenter_ordering h nbl children parents iterations)"
proof -
  let ?A = "set (concat (map snd nbl))"
  let ?m = "for_range (nat iterations) (sweep h nbl children parents (sort (map fst nbl)))
              (init_orders nbl)"
  have "?A \<subseteq> dom ?m"
    by (rule for_range_preserves[where P = "\<lambda>m. ?A \<subseteq> dom m"])
       (simp_all add: dom_sweep dom_init_orders)
  then show ?thesis by (auto simp: barycenter_ordering_def Let_def)
qed

lemma compute_layout_total:
  "\<exists>positions metrics node_layers.
     compute_layout_positions h nodes edges node_spacing layer_separation iterations
       = Inr (positions, metrics, node_layers) \<and>
     (nodes \<noteq> [] \<longrightarrow> assign_layers nodes edges = Inr node_layers) \<and>
     set (map ident nodes) \<subseteq> dom node_layers"
proof (cases "nodes = []")
  case True
  then show ?thesis by (simp add: compute_layout_positions_def)
next
  case False
  obtain L where L: "assign_layers nodes edges = Inr L" "set (map ident nodes) \<subseteq> dom L"
    using assign_layers_total by blast
  obtain nbl where nbl: "group_by_layer L (map ident nodes) [] = Inr nbl"
    using group_by_layer_total[OF L(2)] by blast
  let ?es = "included_edges (set (map ident nodes)) edges"
  let ?ords = "barycenter_ordering h nbl (children_of ?es) (parents_of ?es) iterations"
  have os: "order_stage h nodes edges iterations = Inr (L, nbl, ?ords)"
    using L(1) nbl by (simp add: order_stage_def Let_def)
  have sub: "set (concat (map snd nbl)) \<subseteq> dom ?ords" by (rule dom_barycenter_ordering)
  have "\<forall>ns \<in> snd ` set nbl. \<forall>n \<in> set ns. ?ords n \<noteq> None"
  proof (intro ballI)
    fix ns n assume "ns \<in> snd ` set nbl" "n \<in> set ns"
    then have "n \<in> set (concat (map snd nbl))" by auto
    then have "n \<in> dom ?ords" using sub by blast
    then show "?ords n \<noteq> None" by blast
  qed
  then obtain r where "place_layers node_spacing layer_separation ?ords nbl (Map.empty, 0) = Inr r"
    using place_layers_total by blast
  then obtain P w where
    pl: "place_layers node_spacing layer_separation ?ords nbl (Map.empty, 0) = Inr (P, w)"
    by (cases r) auto
  have "\<exists>metrics. compute_layout_positions h nodes edges node_spacing layer_separation iterations
          = Inr (P, metrics, L)"
    using False os pl by (simp add: compute_layout_positions_def)
  then show ?thesis using L by blast
qed

section \<open>Concrete runs\<close>

definition layout_order ::
  "py_error + ((string \<rightharpoonup> int) \<times> layer_dict \<times> (string \<rightharpoonup> int)) \<Rightarrow> string \<Rightarrow> int option" where
  "layout_order r n =
     (case r of Inl e \<Rightarrow> None | Inr (node_layers, nodes_by_layer, node_orders) \<Rightarrow> node_orders n)"

definition hash_one :: "string \<Rightarrow> int" where "hash_one s = (if s = ''b'' then 1 else 2)"
definition hash_two :: "string \<Rightarrow> int" where "hash_two s = (if s = ''b'' then 2 else 1)"




definition assigned_layer :: "'a node_scheme list \<Rightarrow> 'b edge_scheme list \<Rightarrow> string \<Rightarrow> int option" where
  "assigned_layer nodes edges n =
     (case assign_layers nodes edges of Inl e \<Rightarrow> None | Inr node_layers \<Rightarrow> node_layers n)"

text \<open>
  Claim C1, as the code has it.  The edges between listed nodes form the graph the layering
  works on.  For unique node ids, take an edge \<open>(u, v)\<close> of the input whose endpoints are
  both node ids and whose source \<open>u\<close> is neither on a cycle of that graph nor reachable
  from a node on a cycle.  Then \<^verbatim>\<open>assign_layers\<close> returns a layer map with
  \<open>layer(u) < layer(v)\<close>, and the same map is the third component of the result of
  \<^verbatim>\<open>compute_layout_positions\<close>.
\<close>

theorem layering_invariant:
  assumes "distinct (map ident nodes)"
    and "e \<in> set edges" "source e \<in> set (map ident nodes)" "target e \<in> set (map ident nodes)"
    and "\<forall>c. (c, c) \<in> (set (included_edges (set (map ident nodes)) edges))\<^sup>+ \<longrightarrow>
             (c, source e) \<notin> (set (included_edges (set (map ident nodes)) edges))\<^sup>*"
  shows "\<exists>node_layers positions metrics lu lv.
           assign_layers nodes edges = Inr node_layers \<and>
           compute_layout_positions h nodes edges node_spacing layer_separation iterations
             = Inr (positions, metrics, node_layers) \<and>
           node_layers (source e) = Some lu \<and> node_layers (target e) = Some lv \<and> lu < lv"
proof -
  have r: "resolved nodes edges (source e)"
    by (rule no_cycle_behind_resolved[OF assms(1,3,5)])
  from resolved_edge_ordered[OF assms(1-4) r] obtain L lu lv where
    L: "assign_layers nodes edges = Inr L" "L (source e) = Some lu" "L (target e) = Some lv" "lu < lv"
    by blast
  have ne: "nodes \<noteq> []" using assms(3) by auto
  from compute_layout_total[of h nodes edges node_spacing layer_separation iterations]
  obtain P M L' where
    c: "compute_layout_positions h nodes edges node_spacing layer_separation iterations
          = Inr (P, M, L')" and "nodes \<noteq> [] \<longrightarrow> assign_layers nodes edges = Inr L'" by blast
  then have "L' = L" using ne L(1) by simp
  then show ?thesis using L c by blast
qed

text \<open>
  An instance with a cycle: the edge \<open>A \<rightarrow> B\<close> in front of the cycle \<open>X \<rightarrow> Y \<rightarrow> X\<close>.
\<close>

theorem layering_invariant_witness:
  "distinct (map ident (mk_nodes [''A'', ''B'', ''X'', ''Y''])) \<and>
   \<lparr>source = ''A'', target = ''B''\<rparr>
     \<in> set (mk_edges [(''A'', ''B''), (''B'', ''X''), (''X'', ''Y''), (''Y'', ''X'')]) \<and>
   (''X'', ''X'') \<in> (set (included_edges (set (map ident (mk_nodes [''A'', ''B'', ''X'', ''Y''])))
       (mk_edges [(''A'', ''B''), (''B'', ''X''), (''X'', ''Y''), (''Y'', ''X'')])))\<^sup>+ \<and>
   (\<exists>node_layers positions metrics lu lv.
      assign_layers (mk_nodes [''A'', ''B'', ''X'', ''Y''])
        (mk_edges [(''A'', ''B''), (''B'', ''X''), (''X'', ''Y''), (''Y'', ''X'')]) = Inr node_layers \<and>
      compute_layout_positions zero_hash (mk_nodes [''A'', ''B'', ''X'', ''Y''])
        (mk_edges [(''A'', ''B''), (''B'', ''X''), (''X'', ''Y''), (''Y'', ''X'')]) 250 200 8
        = Inr (positions, metrics, node_layers) \<and>
      node_layers ''A'' = Some lu \<and> node_layers ''B'' = Some lv \<and> lu < lv)"
proof -
  let ?nodes = "mk_nodes [''A'', ''B'', ''X'', ''Y'']"
  let ?edges = "mk_edges [(''A'', ''B''), (''B'', ''X''), (''X'', ''Y''), (''Y'', ''X'')]"
  let ?e = "\<lparr>source = ''A'', target = ''B''\<rparr>"
  let ?r = "set (included_edges (set (map ident ?nodes)) ?edges)"
  have d: "distinct (map ident ?nodes)" by (simp add: mk_nodes_def)
  have e: "?e \<in> set ?edges" by (simp add: mk_edges_def)
  have s: "source ?e \<in> set (map ident ?nodes)" and t: "target ?e \<in> set (map ident ?nodes)"
    by (simp_all add: mk_nodes_def)
  have r: "?r = {(''A'', ''B''), (''B'', ''X''), (''X'', ''Y''), (''Y'', ''X'')}"
    by (simp add: included_edges_def mk_edges_def mk_nodes_def)
  have into: "c = ''A''" if "(c, ''A'') \<in> ?r\<^sup>*" for c
    using that unfolding r by (induction rule: converse_rtrancl_induct) auto
  have noA: "(''A'', ''A'') \<notin> ?r\<^sup>+"
  proof
    assume "(''A'', ''A'') \<in> ?r\<^sup>+"
    then obtain z where "(z, ''A'') \<in> ?r" by (meson tranclD2)
    then show False unfolding r by simp
  qed
  have nc: "\<forall>c. (c, c) \<in> ?r\<^sup>+ \<longrightarrow> (c, source ?e) \<notin> ?r\<^sup>*"
  proof (intro allI impI notI)
    fix c assume c: "(c, c) \<in> ?r\<^sup>+" and "(c, source ?e) \<in> ?r\<^sup>*"
    then have "(c, ''A'') \<in> ?r\<^sup>*" by simp
    then have "c = ''A''" by (rule into)
    then show False using c noA by simp
  qed
  have "(''X'', ''Y'') \<in> ?r" "(''Y'', ''X'') \<in> ?r" unfolding r by simp_all
  then have cyc: "(''X'', ''X'') \<in> ?r\<^sup>+" by (meson trancl.intros)
  from layering_invariant[OF d e s t nc, of zero_hash 250 200 8] d e cyc
  show ?thesis by simp
qed

text \<open>
  The edge need not be on a cycle to lose the invariant: it is enough that it lies behind one.
  With the edges \<open>a \<rightarrow> b\<close>, \<open>b \<rightarrow> a\<close>, \<open>b \<rightarrow> c\<close>, \<open>c \<rightarrow> d\<close> neither \<open>c\<close> nor \<open>d\<close> is on
  a cycle, no node ever enters the queue, and both ends of the edge \<open>c \<rightarrow> d\<close> get the
  default layer 0.
\<close>

theorem layering_counterexample:
  "\<lparr>source = ''c'', target = ''d''\<rparr>
     \<in> set (mk_edges [(''a'', ''b''), (''b'', ''a''), (''b'', ''c''), (''c'', ''d'')]) \<and>
   (''c'', ''c'') \<notin> (set (included_edges (set (map ident (mk_nodes [''a'', ''b'', ''c'', ''d''])))
       (mk_edges [(''a'', ''b''), (''b'', ''a''), (''b'', ''c''), (''c'', ''d'')])))\<^sup>+ \<and>
   (''d'', ''d'') \<notin> (set (included_edges (set (map ident (mk_nodes [''a'', ''b'', ''c'', ''d''])))
       (mk_edges [(''a'', ''b''), (''b'', ''a''), (''b'', ''c''), (''c'', ''d'')])))\<^sup>+ \<and>
   assigned_layer (mk_nodes [''a'', ''b'', ''c'', ''d''])
     (mk_edges [(''a'', ''b''), (''b'', ''a''), (''b'', ''c''), (''c'', ''d'')]) ''c'' = Some 0 \<and>
   assigned_layer (mk_nodes [''a'', ''b'', ''c'', ''d''])
     (mk_edges [(''a'', ''b''), (''b'', ''a''), (''b'', ''c''), (''c'', ''d'')]) ''d'' = Some 0 \<and>
   layout_layer (compute_layout_positions zero_hash (mk_nodes [''a'', ''b'', ''c'', ''d''])
     (mk_edges [(''a'', ''b''), (''b'', ''a''), (''b'', ''c''), (''c'', ''d'')]) 250 200 8) ''c''
     = Some 0 \<and>
   layout_layer (compute_layout_positions zero_hash (mk_nodes [''a'', ''b'', ''c'', ''d''])
     (mk_edges [(''a'', ''b''), (''b'', ''a''), (''b'', ''c''), (''c'', ''d'')]) 250 200 8) ''d''
     = Some 0"
proof -
  let ?nodes = "mk_nodes [''a'', ''b'', ''c'', ''d'']"
  let ?edges = "mk_edges [(''a'', ''b''), (''b'', ''a''), (''b'', ''c''), (''c'', ''d'')]"
  let ?r = "set (included_edges (set (map ident ?nodes)) ?edges)"
  have r: "?r = {(''a'', ''b''), (''b'', ''a''), (''b'', ''c''), (''c'', ''d'')}"
    by (simp add: included_edges_def mk_edges_def mk_nodes_def)
  have e: "\<lparr>source = ''c'', target = ''d''\<rparr> \<in> set ?edges" by (simp add: mk_edges_def)
  have fromd: "x = ''d''" if "(''d'', x) \<in> ?r\<^sup>*" for x
    using that unfolding r by (induction rule: rtrancl_induct) auto
  have nd: "(''d'', ''d'') \<notin> ?r\<^sup>+"
  proof
    assume "(''d'', ''d'') \<in> ?r\<^sup>+"
    then obtain z where "(''d'', z) \<in> ?r" by (meson tranclD)
    then show False unfolding r by simp
  qed
  have nc: "(''c'', ''c'') \<notin> ?r\<^sup>+"
  proof
    assume "(''c'', ''c'') \<in> ?r\<^sup>+"
    then obtain z where z: "(''c'', z) \<in> ?r" "(z, ''c'') \<in> ?r\<^sup>*" by (meson tranclD)
    from z(1) have "z = ''d''" unfolding r by simp
    then have "''c'' = ''d''" using fromd z(2) by blast
    then show False by simp
  qed
  have l1: "assigned_layer ?nodes ?edges ''c'' = Some 0" by code_simp
  have l2: "assigned_layer ?nodes ?edges ''d'' = Some 0" by code_simp
  have l3: "layout_layer (compute_layout_positions zero_hash ?nodes ?edges 250 200 8) ''c'' = Some 0"
    by code_simp
  have l4: "layout_layer (compute_layout_positions zero_hash ?nodes ?edges 250 200 8) ''d'' = Some 0"
    by code_simp
  show ?thesis by (intro conjI e nc nd l1 l2 l3 l4)
qed

section \<open>Self-loops\<close>

lemma in_degree_self_loop:
  assumes "source loop = a" "target loop = a" "a \<in> S"
  shows "in_degree_of (included_edges S (edges1 @ loop # edges2)) a =
         in_degree_of (included_edges S (edges1 @ edges2)) a + 1"
  using assms by (simp add: included_edges_def in_degree_of_def parents_of_def)

lemma layout_y:
  assumes d: "distinct (map ident nodes)" and n: "n \<in> set (map ident nodes)"
    and c: "compute_layout_positions h nodes edges node_spacing layer_separation iterations
              = Inr (positions, metrics, node_layers)"
  shows "\<exists>x layer. node_layers n = Some layer \<and> positions n = Some (x, layer * layer_separation)"
  using layout_positions[OF d n, of h edges node_spacing layer_separation iterations] c
  by auto

text \<open>
  Claim C2, as the code has it.  A self-loop on an existing node \<open>a\<close>, added anywhere in the
  edge list, raises nothing: the call returns a layout that gives every node a layer.  For
  unique node ids, a node that is not reachable from \<open>a\<close> along edges between listed nodes
  (so a node other than \<open>a\<close>) keeps its layer and its \<open>y\<close> coordinate.  The self-loop is
  not excluded from the in-degree counts: it adds 1 to the in-degree of \<open>a\<close>, and \<open>a\<close> is
  then never resolved by the queue loop.
\<close>

theorem self_loop_tolerated:
  assumes "distinct (map ident nodes)" and "a \<in> set (map ident nodes)"
    and "source loop = a" and "target loop = a"
  shows "(\<exists>positions metrics node_layers positions0 metrics0 node_layers0.
            compute_layout_positions h nodes (edges1 @ loop # edges2) node_spacing
              layer_separation iterations = Inr (positions, metrics, node_layers) \<and>
            compute_layout_positions h nodes (edges1 @ edges2) node_spacing
              layer_separation iterations = Inr (positions0, metrics0, node_layers0) \<and>
            set (map ident nodes) \<subseteq> dom node_layers \<and>
            (\<forall>n \<in> set (map ident nodes).
               (a, n) \<notin> (set (included_edges (set (map ident nodes)) (edges1 @ edges2)))\<^sup>* \<longrightarrow>
               node_layers n = node_layers0 n \<and>
               (\<exists>x x0 y. positions n = Some (x, y) \<and> positions0 n = Some (x0, y)))) \<and>
         in_degree_of (included_edges (set (map ident nodes)) (edges1 @ loop # edges2)) a =
           in_degree_of (included_edges (set (map ident nodes)) (edges1 @ edges2)) a + 1 \<and>
         \<not> resolved nodes (edges1 @ loop # edges2) a"
proof (intro conjI)
  have ne: "nodes \<noteq> []" using assms(2) by auto
  from compute_layout_total[of h nodes "edges1 @ loop # edges2" node_spacing
      layer_separation iterations] ne
  obtain P M L where
    c: "compute_layout_positions h nodes (edges1 @ loop # edges2) node_spacing
          layer_separation iterations = Inr (P, M, L)"
    and al: "assign_layers nodes (edges1 @ loop # edges2) = Inr L"
    and dom: "set (map ident nodes) \<subseteq> dom L" by blast
  from compute_layout_total[of h nodes "edges1 @ edges2" node_spacing
      layer_separation iterations] ne
  obtain P0 M0 L0 where
    c0: "compute_layout_positions h nodes (edges1 @ edges2) node_spacing
          layer_separation iterations = Inr (P0, M0, L0)"
    and al0: "assign_layers nodes (edges1 @ edges2) = Inr L0" by blast
  have frame: "L n = L0 n \<and> (\<exists>x x0 y. P n = Some (x, y) \<and> P0 n = Some (x0, y))"
    if n: "n \<in> set (map ident nodes)"
      and u: "(a, n) \<notin> (set (included_edges (set (map ident nodes)) (edges1 @ edges2)))\<^sup>*" for n
  proof -
    have eq: "L n = L0 n" by (rule self_loop_layers[OF assms al al0 n u])
    from layout_y[OF assms(1) n c] obtain x l where
      p: "L n = Some l" "P n = Some (x, l * layer_separation)" by blast
    from layout_y[OF assms(1) n c0] obtain x0 l0 where
      p0: "L0 n = Some l0" "P0 n = Some (x0, l0 * layer_separation)" by blast
    have "l0 = l" using eq p(1) p0(1) by simp
    then show ?thesis using eq p(2) p0(2) by simp
  qed
  show "\<exists>positions metrics node_layers positions0 metrics0 node_layers0.
            compute_layout_positions h nodes (edges1 @ loop # edges2) node_spacing
              layer_separation iterations = Inr (positions, metrics, node_layers) \<and>
            compute_layout_positions h nodes (edges1 @ edges2) node_spacing
              layer_separation iterations = Inr (positions0, metrics0, node_layers0) \<and>
            set (map ident nodes) \<subseteq> dom node_layers \<and>
            (\<forall>n \<in> set (map ident nodes).
               (a, n) \<notin> (set (included_edges (set (map ident nodes)) (edges1 @ edges2)))\<^sup>* \<longrightarrow>
               node_layers n = node_layers0 n \<and>
               (\<exists>x x0 y. positions n = Some (x, y) \<and> positions0 n = Some (x0, y)))"
    apply (rule exI[of _ P])
    apply (rule exI[of _ M])
    apply (rule exI[of _ L])
    apply (rule exI[of _ P0])
    apply (rule exI[of _ M0])
    apply (rule exI[of _ L0])
    apply (intro conjI c c0 dom ballI impI)
     apply (erule (1) frame[THEN conjunct1])
    apply (erule (1) frame[THEN conjunct2])
    done
  show "in_degree_of (included_edges (set (map ident nodes)) (edges1 @ loop # edges2)) a =
          in_degree_of (included_edges (set (map ident nodes)) (edges1 @ edges2)) a + 1"
    by (rule in_degree_self_loop[OF assms(3,4,2)])
  show "\<not> resolved nodes (edges1 @ loop # edges2) a"
  proof
    assume r: "resolved nodes (edges1 @ loop # edges2) a"
    have e: "loop \<in> set (edges1 @ loop # edges2)" by simp
    have "resolved nodes (edges1 @ loop # edges2) (source loop)" using r assms(3) by simp
    from resolved_edge_ordered[OF assms(1) e _ _ this] assms(2,3,4)
    show False by auto
  qed
qed

theorem self_loop_tolerated_witness:
  "distinct (map ident (mk_nodes [''a'', ''b'', ''c''])) \<and>
   ''a'' \<in> set (map ident (mk_nodes [''a'', ''b'', ''c''])) \<and>
   (''a'', ''c'') \<notin> (set (included_edges (set (map ident (mk_nodes [''a'', ''b'', ''c''])))
                          (mk_edges [(''a'', ''b'')] @ [])))\<^sup>* \<and>
   (\<exists>positions metrics node_layers positions0 metrics0 node_layers0.
      compute_layout_positions zero_hash (mk_nodes [''a'', ''b'', ''c''])
        (mk_edges [(''a'', ''b'')] @ \<lparr>source = ''a'', target = ''a''\<rparr> # []) 250 200 8
        = Inr (positions, metrics, node_layers) \<and>
      compute_layout_positions zero_hash (mk_nodes [''a'', ''b'', ''c''])
        (mk_edges [(''a'', ''b'')] @ []) 250 200 8
        = Inr (positions0, metrics0, node_layers0) \<and>
      set (map ident (mk_nodes [''a'', ''b'', ''c''])) \<subseteq> dom node_layers \<and>
      node_layers ''c'' = node_layers0 ''c'' \<and>
      (\<exists>x x0 y. positions ''c'' = Some (x, y) \<and> positions0 ''c'' = Some (x0, y))) \<and>
   \<not> resolved (mk_nodes [''a'', ''b'', ''c''])
       (mk_edges [(''a'', ''b'')] @ \<lparr>source = ''a'', target = ''a''\<rparr> # []) ''a''"
proof -
  let ?nodes = "mk_nodes [''a'', ''b'', ''c'']"
  let ?r = "set (included_edges (set (map ident ?nodes)) (mk_edges [(''a'', ''b'')] @ []))"
  have d: "distinct (map ident ?nodes)" by (simp add: mk_nodes_def)
  have a: "''a'' \<in> set (map ident ?nodes)" by (simp add: mk_nodes_def)
  have c: "''c'' \<in> set (map ident ?nodes)" by (simp add: mk_nodes_def)
  have s: "source \<lparr>source = ''a'', target = ''a''\<rparr> = ''a''"
    and t: "target \<lparr>source = ''a'', target = ''a''\<rparr> = ''a''" by simp_all
  have r: "?r = {(''a'', ''b'')}"
    by (simp add: included_edges_def mk_edges_def mk_nodes_def)
  have reach: "x = ''a'' \<or> x = ''b''" if "(''a'', x) \<in> ?r\<^sup>*" for x
    using that unfolding r by (induction rule: rtrancl_induct) auto
  have u: "(''a'', ''c'') \<notin> ?r\<^sup>*" using reach[of "''c''"] by auto
  from self_loop_tolerated[OF d a s t, of zero_hash "mk_edges [(''a'', ''b'')]" "[]" 250 200 8]
  obtain P M L P0 M0 L0 where
    x: "compute_layout_positions zero_hash ?nodes
          (mk_edges [(''a'', ''b'')] @ \<lparr>source = ''a'', target = ''a''\<rparr> # []) 250 200 8
          = Inr (P, M, L)"
       "compute_layout_positions zero_hash ?nodes (mk_edges [(''a'', ''b'')] @ []) 250 200 8
          = Inr (P0, M0, L0)"
       "set (map ident ?nodes) \<subseteq> dom L"
    and fr: "\<forall>n \<in> set (map ident ?nodes). (''a'', n) \<notin> ?r\<^sup>* \<longrightarrow>
               L n = L0 n \<and> (\<exists>x x0 y. P n = Some (x, y) \<and> P0 n = Some (x0, y))"
    and nr: "\<not> resolved ?nodes
               (mk_edges [(''a'', ''b'')] @ \<lparr>source = ''a'', target = ''a''\<rparr> # []) ''a''"
    by blast
  from fr c u have "L ''c'' = L0 ''c'' \<and> (\<exists>x x0 y. P ''c'' = Some (x, y) \<and> P0 ''c'' = Some (x0, y))"
    by blast
  then show ?thesis using d a u x nr by blast
qed

text \<open>
  With the nodes \<open>a\<close>, \<open>b\<close>, \<open>c\<close> and the edge \<open>a \<rightarrow> b\<close> the node \<open>b\<close> is in layer 1 and
  the isolated node \<open>c\<close> shares layer 0 with \<open>a\<close>, at \<open>x = 125\<close>.  Once the self-loop
  \<open>a \<rightarrow> a\<close> is added, \<open>a\<close> has in-degree 1 and never enters the queue, \<open>b\<close> falls back to
  layer 0, and \<open>c\<close>, now in a layer of three nodes, moves to \<open>x = 250\<close>.
\<close>

theorem self_loop_counterexample:
  "layout_layer (compute_layout_positions zero_hash (mk_nodes [''a'', ''b'', ''c''])
                   (mk_edges [(''a'', ''b'')]) 250 200 8) ''b'' = Some 1 \<and>
   layout_layer (compute_layout_positions zero_hash (mk_nodes [''a'', ''b'', ''c''])
                   (mk_edges [(''a'', ''b''), (''a'', ''a'')]) 250 200 8) ''b'' = Some 0 \<and>
   layout_position (compute_layout_positions zero_hash (mk_nodes [''a'', ''b'', ''c''])
                   (mk_edges [(''a'', ''b'')]) 250 200 8) ''c'' = Some (125, 0) \<and>
   layout_position (compute_layout_positions zero_hash (mk_nodes [''a'', ''b'', ''c''])
                   (mk_edges [(''a'', ''b''), (''a'', ''a'')]) 250 200 8) ''c'' = Some (250, 0) \<and>
   in_degree_of (included_edges (set (map ident (mk_nodes [''a'', ''b'', ''c''])))
                   (mk_edges [(''a'', ''b''), (''a'', ''a'')])) ''a'' = 1"
  by code_simp

section \<open>Dependence on the string hash\<close>

text \<open>
  Claim C4.  The fallback barycenter is computed from the interpreter's \<^verbatim>\<open>hash\<close>, the
  parameter \<open>h\<close> here.  For the nodes \<open>a\<close>, \<open>b\<close>, \<open>c\<close>, \<open>d\<close> and the edge \<open>a \<rightarrow> d\<close> the
  childless nodes \<open>b\<close> and \<open>c\<close> of the top layer are ordered by their hash values, and the
  position of \<open>b\<close> differs between the two hash functions.
\<close>

theorem hash_dependent_positions:
  "layout_position
     (compute_layout_positions hash_one (mk_nodes [''a'', ''b'', ''c'', ''d''])
        (mk_edges [(''a'', ''d'')]) 250 200 8) ''b'' = Some (0, 0) \<and>
   layout_position
     (compute_layout_positions hash_two (mk_nodes [''a'', ''b'', ''c'', ''d''])
        (mk_edges [(''a'', ''d'')]) 250 200 8) ''b'' = Some (250, 0)"
  by code_simp

section \<open>Crossings of the final order and of the naive order\<close>































section \<open>Bottom layer groups and duplicate edges\<close>

definition dup_nodes :: "node list" where
  "dup_nodes = mk_nodes [''a'', ''b'', ''c'', ''d'', ''e'', ''f'']"

definition dup_edges :: "edge list" where
  "dup_edges = mk_edges [(''b'', ''e''), (''b'', ''a''), (''d'', ''a''), (''c'', ''f''),
                         (''d'', ''e''), (''d'', ''e'')]"

text \<open>
  Claim C6.  The group key is the sorted list of the parent ids with repetitions, so a
  repeated edge changes the key.  Here \<open>a\<close> and \<open>e\<close> of the bottom layer have the same set of
  parents \<open>{b, d}\<close>, the edge \<open>d \<rightarrow> e\<close> occurs twice, and the final order puts \<open>f\<close>, whose
  only parent is \<open>c\<close>, between them.
\<close>

theorem duplicate_edge_splits_group:
  "map (layout_layer (compute_layout_positions zero_hash dup_nodes dup_edges 250 200 8))
     [''a'', ''f'', ''e''] = [Some 1, Some 1, Some 1] \<and>
   map (layout_layer (compute_layout_positions zero_hash dup_nodes dup_edges 250 200 8))
     [''b'', ''c'', ''d''] = [Some 0, Some 0, Some 0] \<and>
   map (layout_order (order_stage zero_hash dup_nodes dup_edges 8)) [''a'', ''f'', ''e'']
     = [Some 0, Some 1, Some 2] \<and>
   set (parents_of (included_edges (set (map ident dup_nodes)) dup_edges) ''a'') = {''b'', ''d''} \<and>
   set (parents_of (included_edges (set (map ident dup_nodes)) dup_edges) ''e'') = {''b'', ''d''} \<and>
   set (parents_of (included_edges (set (map ident dup_nodes)) dup_edges) ''f'') = {''c''}"
  by code_simp

end
